theory Spec2Isabelle
  imports
    Main
    "HOL-Library.Extended_Nat"
    "HOL-Library.Product_Lexorder"
    "HOL-Library.List_Lexorder"
    "HOL-Library.Char_ord"
    "HOL-Library.Multiset"
begin

section \<open>Python values that the model needs\<close>

text \<open>
  The exceptions the modelled code can raise: an out-of-range list index, a missing
  dictionary key (or a missing set element in \<open>set.remove\<close>), and iterating over
  \<open>None\<close>.
\<close>

datatype error = IndexError | KeyError | TypeError

text \<open>\<open>xs[i]\<close> for an index that the code keeps non-negative.\<close>

definition list_get :: "'a list \<Rightarrow> nat \<Rightarrow> error + 'a" where
  "list_get xs i = (if i < length xs then Inr (xs ! i) else Inl IndexError)"

text \<open>
  \<open>xs[i]\<close> where \<open>i\<close> is any Python integer: an index in \<open>-len(xs), ..., -1\<close> reads
  from the end of the list, and an index outside \<open>-len(xs), ..., len(xs) - 1\<close> raises.
\<close>

definition py_get :: "'a list \<Rightarrow> int \<Rightarrow> error + 'a" where
  "py_get xs i =
     (if 0 \<le> i \<and> i < int (length xs) then Inr (xs ! nat i)
      else if i < 0 \<and> - int (length xs) \<le> i then Inr (xs ! nat (int (length xs) + i))
      else Inl IndexError)"

text \<open>
  A value that can be tested for membership in a heap: a number or a string. In Python a
  number never equals a string.
\<close>

datatype 'p pyval = PNum 'p | PStr string

section \<open>priorityQueue.py: class BinaryHeap\<close>

text \<open>
  The heap stores tuples \<open>(distance, name)\<close>. Tuples are compared by Python's tuple
  order, which is the lexicographic order of pairs; names are strings, compared
  lexicographically by character code. The priority type is any linearly ordered type with
  a zero (the integers, or the extended naturals when \<open>float('inf')\<close> is used).
\<close>

type_synonym 'p entry = "'p \<times> string"

record 'p BinaryHeap =
  heapList :: "'p entry list"
  currentSize :: int

definition BinaryHeap_init :: "('p::zero) BinaryHeap" where
  "BinaryHeap_init = \<lparr>heapList = [(0, ''0'')], currentSize = 0\<rparr>"

text \<open>
  \<open>percUp\<close>: the index is a Python integer; the loop body only runs for \<open>i \<ge> 2\<close>, so
  the index is modelled as a natural number (a negative index leaves the loop at once, as
  index 0 does).
\<close>

function percUp :: "nat \<Rightarrow> ('p::linorder) BinaryHeap \<Rightarrow> error + 'p BinaryHeap" where
  "percUp i h =
     (if i div 2 > 0 then
        (if i < length (heapList h) then
           percUp (i div 2)
             (if heapList h ! i < heapList h ! (i div 2)
              then h\<lparr>heapList := (heapList h)[i div 2 := heapList h ! i, i := heapList h ! (i div 2)]\<rparr>
              else h)
         else Inl IndexError)
      else Inr h)"
  by pat_completeness auto
termination
  by (relation "measure (\<lambda>(i, h). i)") auto

declare percUp.simps [simp del]

definition insert_heap :: "('p::linorder) entry \<Rightarrow> 'p BinaryHeap \<Rightarrow> error + 'p BinaryHeap" where
  "insert_heap k h =
     (let h1 = h\<lparr>heapList := heapList h @ [k]\<rparr>;
          h2 = h1\<lparr>currentSize := currentSize h1 + 1\<rparr>
      in percUp (nat (currentSize h2)) h2)"

definition minChild :: "nat \<Rightarrow> ('p::linorder) BinaryHeap \<Rightarrow> error + nat" where
  "minChild i h =
     (if int (i * 2 + 1) > currentSize h then Inr (i * 2)
      else if i * 2 + 1 < length (heapList h) then
        (if heapList h ! (i * 2) < heapList h ! (i * 2 + 1) then Inr (i * 2)
         else Inr (i * 2 + 1))
      else Inl IndexError)"

text \<open>
  \<open>percDown\<close>: the callers pass \<open>1\<close> (\<open>delMin\<close>) and \<open>len(alist) // 2, ..., 1\<close>
  (\<open>buildHeap\<close>). At index 0 the minimum child can be index 0 again; then nothing changes
  and the Python loop never ends, which is the result \<open>None\<close>.
\<close>

function percDown :: "nat \<Rightarrow> ('p::linorder) BinaryHeap \<Rightarrow> (error + 'p BinaryHeap) option" where
  "percDown i h =
     (if int (i * 2) \<le> currentSize h then
        (case minChild i h of
           Inl e \<Rightarrow> Some (Inl e)
         | Inr mc \<Rightarrow>
             if i < length (heapList h) \<and> mc < length (heapList h) then
               (if mc \<le> i then None
                else percDown mc
                  (if heapList h ! i > heapList h ! mc
                   then h\<lparr>heapList := (heapList h)[i := heapList h ! mc, mc := heapList h ! i]\<rparr>
                   else h))
             else Some (Inl IndexError))
      else Some (Inr h))"
  by pat_completeness auto
termination
  by (relation "measure (\<lambda>(i, h). nat (currentSize h) - i)")
     (auto simp: minChild_def split: if_splits)

declare percDown.simps [simp del]

definition delMin :: "('p::linorder) BinaryHeap \<Rightarrow> (error + ('p entry \<times> 'p BinaryHeap)) option" where
  "delMin h =
     (case list_get (heapList h) 1 of
        Inl e \<Rightarrow> Some (Inl e)
      | Inr retval \<Rightarrow>
          (case py_get (heapList h) (currentSize h) of
             Inl e \<Rightarrow> Some (Inl e)
           | Inr lastv \<Rightarrow>
               (let h1 = h\<lparr>heapList := (heapList h)[1 := lastv]\<rparr>;
                    h2 = h1\<lparr>currentSize := currentSize h1 - 1\<rparr>;
                    h3 = h2\<lparr>heapList := butlast (heapList h2)\<rparr>
                in case percDown 1 h3 of
                     None \<Rightarrow> None
                   | Some (Inl e) \<Rightarrow> Some (Inl e)
                   | Some (Inr h4) \<Rightarrow> Some (Inr (retval, h4)))))"

fun buildHeap_loop :: "nat \<Rightarrow> ('p::linorder) BinaryHeap \<Rightarrow> (error + 'p BinaryHeap) option" where
  "buildHeap_loop 0 h = Some (Inr h)"
| "buildHeap_loop (Suc n) h =
     (case percDown (Suc n) h of
        None \<Rightarrow> None
      | Some (Inl e) \<Rightarrow> Some (Inl e)
      | Some (Inr h') \<Rightarrow> buildHeap_loop n h')"

definition buildHeap ::
  "('p::{linorder,zero}) entry list \<Rightarrow> 'p BinaryHeap \<Rightarrow> (error + 'p BinaryHeap) option" where
  "buildHeap alist h =
     buildHeap_loop (length alist div 2)
       (h\<lparr>currentSize := int (length alist), heapList := (0, ''0'') # alist\<rparr>)"

definition isEmpty :: "('p::zero) BinaryHeap \<Rightarrow> bool" where
  "isEmpty h = (heapList h = [(0, ''0'')])"

text \<open>The index of the first tuple whose name is \<open>name\<close>, as the \<open>enumerate\<close> loops find it.\<close>

fun find_name :: "string \<Rightarrow> 'p entry list \<Rightarrow> nat option" where
  "find_name name [] = None"
| "find_name name (t # ts) =
     (if snd t = name then Some 0 else map_option Suc (find_name name ts))"

definition editHeap ::
  "string \<Rightarrow> ('p::linorder) entry \<Rightarrow> 'p BinaryHeap \<Rightarrow> error + 'p BinaryHeap" where
  "editHeap name update h =
     (case find_name name (heapList h) of
        Some i \<Rightarrow>
          (let h1 = h\<lparr>heapList := take i (heapList h) @ drop (Suc i) (heapList h)\<rparr>;
               h2 = h1\<lparr>currentSize := currentSize h1 - 1\<rparr>
           in insert_heap update h2)
      | None \<Rightarrow> insert_heap update h)"

definition display :: "string \<Rightarrow> 'p BinaryHeap \<Rightarrow> 'p entry option" where
  "display name h = find (\<lambda>t. snd t = name) (heapList h)"

text \<open>\<open>item in tuple\<close> for a tuple \<open>(distance, name)\<close>, and \<open>item in heap\<close>.\<close>

fun in_tuple :: "'p pyval \<Rightarrow> 'p entry \<Rightarrow> bool" where
  "in_tuple (PNum x) t = (x = fst t)"
| "in_tuple (PStr s) t = (s = snd t)"

definition contains :: "'p pyval \<Rightarrow> 'p BinaryHeap \<Rightarrow> bool" where
  "contains item h = list_ex (in_tuple item) (heapList h)"

section \<open>graph.py\<close>

record 'v Graph =
  vertexList :: "'v list"
  connections :: "'v \<rightharpoonup> 'v list"

definition Graph_init :: "'v Graph" where
  "Graph_init = \<lparr>vertexList = [], connections = Map.empty\<rparr>"

definition addVertex :: "'v \<Rightarrow> 'v Graph \<Rightarrow> 'v Graph" where
  "addVertex vertex g =
     (if vertex \<in> set (vertexList g) then g
      else g\<lparr>vertexList := vertexList g @ [vertex],
             connections := (connections g)(vertex \<mapsto> [])\<rparr>)"

definition addConn :: "'v \<Rightarrow> 'v \<Rightarrow> 'v Graph \<Rightarrow> error + 'v Graph" where
  "addConn v1 v2 g =
     (let g1 = (if v1 \<notin> set (vertexList g) then addVertex v1 g else g);
          g2 = (if v2 \<notin> set (vertexList g1) then addVertex v2 g1 else g1)
      in case connections g2 v1 of
           None \<Rightarrow> Inl KeyError
         | Some c \<Rightarrow>
             if v2 \<in> set c then Inr g2
             else Inr (g2\<lparr>connections := (connections g2)(v1 \<mapsto> c @ [v2])\<rparr>))"

definition hasVert :: "'v \<Rightarrow> 'v Graph \<Rightarrow> bool" where
  "hasVert vert g = (vert \<in> set (vertexList g))"

definition getConns :: "'v \<Rightarrow> 'v Graph \<Rightarrow> error + 'v list option" where
  "getConns vert g =
     (if \<not> hasVert vert g then Inr None
      else case connections g vert of None \<Rightarrow> Inl KeyError | Some c \<Rightarrow> Inr (Some c))"

definition getNodes :: "'v Graph \<Rightarrow> 'v list" where
  "getNodes g = vertexList g"

definition keep_shorter :: "'v list option \<Rightarrow> 'v list option \<Rightarrow> 'v list option" where
  "keep_shorter newpath shortest =
     (case newpath of
        None \<Rightarrow> shortest
      | Some np \<Rightarrow>
          if np = [] then shortest
          else (case shortest of
                  None \<Rightarrow> newpath
                | Some sh \<Rightarrow> if sh = [] \<or> length np < length sh then newpath else shortest))"

function find_shortest_path :: "'v Graph \<Rightarrow> 'v \<Rightarrow> 'v \<Rightarrow> 'v list \<Rightarrow> error + 'v list option"
  and fsp_loop :: "'v Graph \<Rightarrow> 'v \<Rightarrow> 'v list \<Rightarrow> 'v list \<Rightarrow> 'v list option \<Rightarrow> error + 'v list option"
where
  "find_shortest_path graph start end path0 =
     (let path = path0 @ [start] in
      if start = end then Inr (Some path)
      else if \<not> hasVert start graph \<or> \<not> hasVert end graph then Inr None
      else (case getConns start graph of
              Inl e \<Rightarrow> Inl e
            | Inr None \<Rightarrow> Inl TypeError
            | Inr (Some conns) \<Rightarrow> fsp_loop graph end path conns None))"
| "fsp_loop graph end path [] shortest = Inr shortest"
| "fsp_loop graph end path (node # nodes) shortest =
     (if node \<notin> set path then
        (case find_shortest_path graph node end path of
           Inl e \<Rightarrow> Inl e
         | Inr newpath \<Rightarrow> fsp_loop graph end path nodes (keep_shorter newpath shortest))
      else fsp_loop graph end path nodes shortest)"
  by pat_completeness auto
termination
proof (relation "(\<lambda>x. case x of
           Inl (g, s, e, p) \<Rightarrow> (if s \<in> set (vertexList g) then 2 * card (set (vertexList g) - set (p @ [s])) + 2 else 0)
         | Inr (g, e, p, ns, sh) \<Rightarrow> 2 * card (set (vertexList g) - set p) + 1) <*mlex*>
        measure (\<lambda>x. case x of Inl _ \<Rightarrow> 0 | Inr (g, e, p, ns, sh) \<Rightarrow> length ns)", goal_cases)
  case 1
  then show ?case by (simp add: wf_mlex)
next
  case (2 graph start "end" path0 x x2 x2a)
  then show ?case by (auto simp: mlex_prod_def hasVert_def)
next
  case (3 graph "end" path node nodes shortest)
  have "card (set (vertexList graph) - insert node (set path)) < card (set (vertexList graph) - set path)"
    if "node \<in> set (vertexList graph)"
    using that 3 by (intro psubset_card_mono) auto
  then show ?case by (auto simp: mlex_prod_def)
next
  case 4 then show ?case by (auto simp: mlex_prod_def)
next
  case 5 then show ?case by (auto simp: mlex_prod_def)
qed

function visit :: "'v \<Rightarrow> 'v set \<Rightarrow> 'v set \<Rightarrow> 'v Graph \<Rightarrow> error + (bool \<times> 'v set \<times> 'v set)"
  and visit_loop :: "'v list \<Rightarrow> 'v set \<Rightarrow> 'v set \<Rightarrow> 'v Graph \<Rightarrow> error + (bool \<times> 'v set \<times> 'v set)"
where
  "visit vertex visited path graph =
     (if vertex \<in> visited then Inr (False, visited, path)
      else (case getConns vertex graph of
              Inl e \<Rightarrow> Inl e
            | Inr None \<Rightarrow> Inl TypeError
            | Inr (Some conns) \<Rightarrow>
                (case visit_loop conns (insert vertex visited) (insert vertex path) graph of
                   Inl e \<Rightarrow> Inl e
                 | Inr (True, vs, p) \<Rightarrow> Inr (True, vs, p)
                 | Inr (False, vs, p) \<Rightarrow>
                     if vertex \<in> p then Inr (False, vs, p - {vertex}) else Inl KeyError)))"
| "visit_loop [] visited path graph = Inr (False, visited, path)"
| "visit_loop (neighbour # rest) visited path graph =
     (if neighbour \<in> path then Inr (True, visited, path)
      else (case visit neighbour visited path graph of
              Inl e \<Rightarrow> Inl e
            | Inr (True, vs, p) \<Rightarrow> Inr (True, vs, p)
            | Inr (False, vs, p) \<Rightarrow> visit_loop rest vs p graph))"
  by pat_completeness auto


termination
proof -
  have mono:
    "visit_visit_loop_dom (Inl (v, vis, p, g)) \<Longrightarrow> visit v vis p g = Inr (b, vs, p') \<Longrightarrow> vis \<subseteq> vs"
    "visit_visit_loop_dom (Inr (ns, vis, p, g)) \<Longrightarrow> visit_loop ns vis p g = Inr (b, vs, p') \<Longrightarrow> vis \<subseteq> vs"
    for v :: 'v and vis p g b vs p' ns
  proof (induct arbitrary: b vs p' and b vs p' rule: visit_visit_loop.pinduct)
    case (1 vertex visited path graph)
    then show ?case
      by (simp add: visit.psimps split: if_splits sum.splits option.splits prod.splits bool.splits)
  next
    case (2 visited path graph)
    then show ?case by (simp add: visit_loop.psimps)
  next
    case (3 neighbour rest visited path graph)
    then show ?case
      by (simp add: visit_loop.psimps split: if_splits sum.splits option.splits prod.splits bool.splits)
         blast+
  qed
  show ?thesis
  proof (relation "(\<lambda>x. case x of
           Inl (v, vis, p, g) \<Rightarrow> card (set (vertexList g) - vis)
         | Inr (ns, vis, p, g) \<Rightarrow> card (set (vertexList g) - vis)) <*mlex*>
        measure (\<lambda>x. case x of Inl _ \<Rightarrow> 0 | Inr (ns, vis, p, g) \<Rightarrow> Suc (length ns))", goal_cases)
    case 1
    then show ?case by (simp add: wf_mlex)
  next
    case (2 vertex visited path graph b conns)
    then have "vertex \<in> set (vertexList graph)"
      by (auto simp: getConns_def hasVert_def split: if_splits)
    with 2 have "card (set (vertexList graph) - insert vertex visited)
                  < card (set (vertexList graph) - visited)"
      by (intro psubset_card_mono) auto
    then show ?case by (auto simp: mlex_prod_def)
  next
    case (3 neighbour rest visited path graph)
    then show ?case by (auto simp: mlex_prod_def)
  next
    case (4 neighbour rest visited path graph b x y xa ya)
    then have "visited \<subseteq> xa"
      using mono(1)[of neighbour visited path graph x xa ya] by auto
    then have "card (set (vertexList graph) - xa) \<le> card (set (vertexList graph) - visited)"
      by (intro card_mono) auto
    then show ?case by (auto simp: mlex_prod_def)
  qed
qed

declare visit.simps [simp del] visit_loop.simps [simp del]
declare find_shortest_path.simps [simp del]

fun check_loop :: "'v list \<Rightarrow> 'v set \<Rightarrow> 'v set \<Rightarrow> 'v Graph \<Rightarrow> error + bool" where
  "check_loop [] path visited graph = Inr False"
| "check_loop (vert # verts) path visited graph =
     (case visit vert path visited graph of
        Inl e \<Rightarrow> Inl e
      | Inr (True, a, b) \<Rightarrow> Inr True
      | Inr (False, a, b) \<Rightarrow> check_loop verts a b graph)"

definition check_cycles :: "'v Graph \<Rightarrow> error + bool" where
  "check_cycles graph = check_loop (vertexList graph) {} {} graph"


subsection \<open>Dijkstra\<close>

text \<open>
  Distances are Python integers or \<open>float('inf')\<close>: extended natural numbers, where
  \<open>\<infinity> + 1 = \<infinity>\<close>. The vertices are strings, since they become the names of heap tuples.
  The dictionary \<open>dist\<close> is the map \<open>dist_m\<close>.
\<close>

fun Dijkstra_init ::
  "string list \<Rightarrow> string \<Rightarrow> (string \<rightharpoonup> enat) \<Rightarrow> enat BinaryHeap \<Rightarrow>
   error + ((string \<rightharpoonup> enat) \<times> enat BinaryHeap)" where
  "Dijkstra_init [] source dist_m pq = Inr (dist_m, pq)"
| "Dijkstra_init (node # nodes) source dist_m pq =
     (let d = (if node \<noteq> source then \<infinity> else 0);
          dist_m1 = dist_m(node \<mapsto> d)
      in case insert_heap (d, node) pq of
           Inl e \<Rightarrow> Inl e
         | Inr pq1 \<Rightarrow> Dijkstra_init nodes source dist_m1 pq1)"

fun Dijkstra_relax ::
  "string list \<Rightarrow> enat entry \<Rightarrow> (string \<rightharpoonup> enat) \<Rightarrow> enat BinaryHeap \<Rightarrow>
   error + ((string \<rightharpoonup> enat) \<times> enat BinaryHeap)" where
  "Dijkstra_relax [] current dist_m pq = Inr (dist_m, pq)"
| "Dijkstra_relax (next_node # rest) current dist_m pq =
     (let new_dist = fst current + 1
      in case dist_m next_node of
           None \<Rightarrow> Inl KeyError
         | Some d \<Rightarrow>
             if new_dist < d then
               (case editHeap next_node (new_dist, next_node) pq of
                  Inl e \<Rightarrow> Inl e
                | Inr pq1 \<Rightarrow> Dijkstra_relax rest current (dist_m(next_node \<mapsto> new_dist)) pq1)
             else Dijkstra_relax rest current dist_m pq)"

text \<open>The \<open>while not pq.isEmpty()\<close> loop; \<open>None\<close> is a loop that never ends.\<close>

partial_function (option) Dijkstra_loop ::
  "string Graph \<Rightarrow> (string \<rightharpoonup> enat) \<Rightarrow> enat BinaryHeap \<Rightarrow> (error + (string \<rightharpoonup> enat)) option" where
  "Dijkstra_loop graph dist_m pq =
     (if \<not> isEmpty pq then
        (case delMin pq of
           None \<Rightarrow> None
         | Some (Inl e) \<Rightarrow> Some (Inl e)
         | Some (Inr (current, pq1)) \<Rightarrow>
             (case getConns (snd current) graph of
                Inl e \<Rightarrow> Some (Inl e)
              | Inr None \<Rightarrow> Some (Inl TypeError)
              | Inr (Some conns) \<Rightarrow>
                  (case Dijkstra_relax conns current dist_m pq1 of
                     Inl e \<Rightarrow> Some (Inl e)
                   | Inr (dist_m1, pq2) \<Rightarrow> Dijkstra_loop graph dist_m1 pq2)))
      else Some (Inr dist_m))"

declare Dijkstra_loop.simps [code]

definition Dijkstra :: "string Graph \<Rightarrow> string \<Rightarrow> (error + (string \<rightharpoonup> enat)) option" where
  "Dijkstra graph source =
     (case Dijkstra_init (vertexList graph) source Map.empty BinaryHeap_init of
        Inl e \<Rightarrow> Some (Inl e)
      | Inr (dist_m, pq) \<Rightarrow> Dijkstra_loop graph dist_m pq)"

section \<open>Client code used to state the properties\<close>

text \<open>A sequence of \<open>insert\<close> calls on one heap, in order.\<close>

fun inserts :: "('p::linorder) entry list \<Rightarrow> 'p BinaryHeap \<Rightarrow> error + 'p BinaryHeap" where
  "inserts [] h = Inr h"
| "inserts (k # ks) h =
     (case insert_heap k h of Inl e \<Rightarrow> Inl e | Inr h' \<Rightarrow> inserts ks h')"

text \<open>A sequence of \<open>addConn\<close> calls on one graph, in order.\<close>

fun addConns :: "('v \<times> 'v) list \<Rightarrow> 'v Graph \<Rightarrow> error + 'v Graph" where
  "addConns [] g = Inr g"
| "addConns ((va, vb) # cs) g =
     (case addConn va vb g of Inl e \<Rightarrow> Inl e | Inr g' \<Rightarrow> addConns cs g')"

text \<open>
  The min-heap order on priorities: every index \<open>i \<ge> 2\<close> of the backing list holds a
  priority that is at least the priority at its parent \<open>i div 2\<close>.
\<close>

definition heap_order :: "('p::linorder) entry list \<Rightarrow> bool" where
  "heap_order xs = list_all (\<lambda>i. fst (xs ! (i div 2)) \<le> fst (xs ! i)) [2..<length xs]"

text \<open>
  The representation invariant that every method of \<open>BinaryHeap\<close> keeps: the backing
  list holds one slot more than \<open>currentSize\<close>.
\<close>

definition heap_wf :: "'p BinaryHeap \<Rightarrow> bool" where
  "heap_wf h = (0 \<le> currentSize h \<and> int (length (heapList h)) = currentSize h + 1)"

text \<open>
  The heap order on whole tuples, which is the order \<open>percUp\<close> and \<open>percDown\<close> compare
  by: every index \<open>j \<ge> 2\<close> holds a tuple that is at least the tuple at \<open>j div 2\<close>. It
  implies the heap order on priorities.
\<close>

definition tuple_order :: "('a::linorder) list \<Rightarrow> bool" where
  "tuple_order xs = (\<forall>j. 2 \<le> j \<and> j < length xs \<longrightarrow> xs ! (j div 2) \<le> xs ! j)"

text \<open>
  The loop invariant of \<open>percUp\<close> at index \<open>i\<close>: the list is in heap order except
  between \<open>i\<close> and its parent, and the parent of \<open>i\<close> is at most the children of \<open>i\<close>.
\<close>

definition up_inv :: "nat \<Rightarrow> ('a::linorder) list \<Rightarrow> bool" where
  "up_inv i xs =
     ((\<forall>j. 2 \<le> j \<and> j < length xs \<and> j \<noteq> i \<longrightarrow> xs ! (j div 2) \<le> xs ! j) \<and>
      (\<forall>j. 2 \<le> j \<and> j < length xs \<and> j div 2 = i \<and> 2 \<le> i \<longrightarrow> xs ! (i div 2) \<le> xs ! j))"

text \<open>
  \<open>sub_order k\<close>: heap order between every node of index at least \<open>k\<close> and its children
  (\<open>buildHeap\<close> establishes it for smaller and smaller \<open>k\<close>). \<open>down_inv k m\<close> is the
  loop invariant of \<open>percDown\<close> at index \<open>m\<close>: \<open>sub_order k\<close> holds except between \<open>m\<close>
  and its children, and the parent of \<open>m\<close> is at most the children of \<open>m\<close>.
\<close>

definition sub_order :: "nat \<Rightarrow> ('a::linorder) list \<Rightarrow> bool" where
  "sub_order k xs = (\<forall>j. 2 \<le> j \<and> j < length xs \<and> k \<le> j div 2 \<longrightarrow> xs ! (j div 2) \<le> xs ! j)"

definition down_inv :: "nat \<Rightarrow> nat \<Rightarrow> ('a::linorder) list \<Rightarrow> bool" where
  "down_inv k m xs =
     ((\<forall>j. 2 \<le> j \<and> j < length xs \<and> k \<le> j div 2 \<and> j div 2 \<noteq> m \<longrightarrow> xs ! (j div 2) \<le> xs ! j) \<and>
      (\<forall>j. 2 \<le> j \<and> j < length xs \<and> j div 2 = m \<and> k \<le> m div 2 \<longrightarrow> xs ! (m div 2) \<le> xs ! j))"

text \<open>
  The client loop \<open>while not h.isEmpty(): out.append(h.delMin())\<close>; \<open>None\<close> is a loop
  that never ends.
\<close>

partial_function (option) drain ::
  "('p::{linorder,zero}) BinaryHeap \<Rightarrow> 'p entry list \<Rightarrow> (error + 'p entry list) option" where
  "drain h out =
     (if isEmpty h then Some (Inr out)
      else (case delMin h of
              None \<Rightarrow> None
            | Some (Inl e) \<Rightarrow> Some (Inl e)
            | Some (Inr (r, h')) \<Rightarrow> drain h' (out @ [r])))"

text \<open>
  \<open>edge g u v\<close>: \<open>v\<close> is among \<open>graph.getConns(u)\<close>. A walk from \<open>u\<close> to \<open>v\<close> is a
  non-empty list of vertices from \<open>u\<close> to \<open>v\<close> whose consecutive elements are edges; the
  one-element list \<open>[u]\<close> is a walk from \<open>u\<close> to \<open>u\<close>.
\<close>

definition edge :: "'v Graph \<Rightarrow> 'v \<Rightarrow> 'v \<Rightarrow> bool" where
  "edge g u v = (case getConns u g of Inr (Some c) \<Rightarrow> v \<in> set c | _ \<Rightarrow> False)"

definition walk :: "'v Graph \<Rightarrow> 'v \<Rightarrow> 'v \<Rightarrow> 'v list \<Rightarrow> bool" where
  "walk g u v P = (P \<noteq> [] \<and> hd P = u \<and> last P = v \<and> successively (edge g) P)"

text \<open>
  What \<open>addVertex\<close> and \<open>addConn\<close> keep true of a graph: the vertex list has no
  duplicates, every listed vertex has an adjacency list, and every adjacency list is free
  of duplicates and names listed vertices only.
\<close>

definition graph_inv :: "'v Graph \<Rightarrow> bool" where
  "graph_inv g =
     (distinct (vertexList g) \<and>
      list_all (\<lambda>v. case connections g v of
                       None \<Rightarrow> False
                     | Some c \<Rightarrow> list_all (\<lambda>w. w \<in> set (vertexList g)) c \<and> distinct c)
               (vertexList g))"

text \<open>
  The edge relation of a graph, and what it means for the graph to contain a directed
  cycle: some vertex reaches itself along one or more edges.
\<close>

definition edges :: "'v Graph \<Rightarrow> ('v \<times> 'v) set" where
  "edges g = {(u, v). edge g u v}"

definition has_cycle :: "'v Graph \<Rightarrow> bool" where
  "has_cycle g = (\<exists>v. (v, v) \<in> (edges g)\<^sup>+)"

text \<open>
  The invariant of the depth-first search of \<open>check_cycles\<close>. \<open>A\<close> is the set \<open>visit\<close>
  calls \<open>visited\<close> and \<open>B\<close> the set it calls \<open>path\<close>: the vertices in \<open>A - B\<close> are the
  finished ones, every edge from a finished vertex leads to a finished vertex, and no
  finished vertex lies on a cycle.
\<close>

definition dfs_inv :: "'v Graph \<Rightarrow> 'v set \<Rightarrow> 'v set \<Rightarrow> bool" where
  "dfs_inv g A B =
     (B \<subseteq> A \<and>
      (\<forall>u \<in> A - B. \<forall>w. edge g u w \<longrightarrow> w \<in> A - B) \<and>
      (\<forall>u \<in> A - B. (u, u) \<notin> (edges g)\<^sup>+))"

section \<open>Properties\<close>

subsection \<open>Graphs built through the interface\<close>

lemma graph_inv_init: "graph_inv Graph_init"
  by (simp add: graph_inv_def Graph_init_def)

lemma graph_inv_addVertex: "graph_inv g \<Longrightarrow> graph_inv (addVertex v g)"
  by (auto simp: graph_inv_def addVertex_def list_all_iff split: option.splits)

lemma graph_inv_addConn:
  assumes "graph_inv g"
  shows "\<exists>g'. addConn v1 v2 g = Inr g' \<and> graph_inv g'"
proof -
  define g1 where "g1 = (if v1 \<notin> set (vertexList g) then addVertex v1 g else g)"
  define g2 where "g2 = (if v2 \<notin> set (vertexList g1) then addVertex v2 g1 else g1)"
  have i1: "graph_inv g1" using assms by (simp add: g1_def graph_inv_addVertex)
  then have i2: "graph_inv g2" by (simp add: g2_def graph_inv_addVertex)
  have m1: "v1 \<in> set (vertexList g1)" by (simp add: g1_def addVertex_def)
  then have m: "v1 \<in> set (vertexList g2)" "v2 \<in> set (vertexList g2)"
    by (auto simp: g2_def addVertex_def)
  with i2 obtain c where c: "connections g2 v1 = Some c"
    by (auto simp: graph_inv_def list_all_iff split: option.splits)
  have "graph_inv (g2\<lparr>connections := (connections g2)(v1 \<mapsto> c @ [v2])\<rparr>)" if "v2 \<notin> set c"
    using i2 m c that by (auto simp: graph_inv_def list_all_iff split: option.splits)
  with i2 c show ?thesis
    by (auto simp: addConn_def Let_def g1_def[symmetric] g2_def[symmetric])
qed

lemma graph_inv_addConns:
  "graph_inv g \<Longrightarrow> \<exists>g'. addConns cs g = Inr g' \<and> graph_inv g'"
proof (induction cs arbitrary: g)
  case Nil
  then show ?case by simp
next
  case (Cons c cs)
  obtain a b where c: "c = (a, b)" by (cases c)
  from graph_inv_addConn[OF Cons.prems, of a b] obtain g1 where "addConn a b g = Inr g1" "graph_inv g1"
    by blast
  with Cons.IH[of g1] c show ?case by simp
qed


subsection \<open>The recursive shortest-path search\<close>

lemma keep_shorter_cases: "keep_shorter n s = n \<or> keep_shorter n s = s"
  by (auto simp: keep_shorter_def split: option.splits)

lemma fsp_sound:
  "find_shortest_path g s e p0 = Inr (Some P) \<Longrightarrow>
     \<exists>R. P = p0 @ R \<and> walk g s e R \<and> distinct R \<and> set (tl R) \<inter> set p0 = {}"
  "fsp_loop g e path nodes sh = Inr (Some P) \<Longrightarrow> path \<noteq> [] \<Longrightarrow>
     (\<forall>n \<in> set nodes. edge g (last path) n) \<Longrightarrow>
     (\<forall>S. sh = Some S \<longrightarrow> (\<exists>R. S = path @ R \<and> R \<noteq> [] \<and> edge g (last path) (hd R) \<and> last R = e
          \<and> successively (edge g) R \<and> distinct R \<and> set R \<inter> set path = {})) \<Longrightarrow>
     \<exists>R. P = path @ R \<and> R \<noteq> [] \<and> edge g (last path) (hd R) \<and> last R = e
          \<and> successively (edge g) R \<and> distinct R \<and> set R \<inter> set path = {}"
proof (induct g s e p0 and g e path nodes sh arbitrary: P and P rule: find_shortest_path_fsp_loop.induct)
  case (1 graph start "end" path0)
  show ?case
  proof (cases "start = end")
    case True
    with 1(2) show ?thesis by (auto simp: find_shortest_path.simps walk_def)
  next
    case False
    with 1(2) obtain conns where c: "getConns start graph = Inr (Some conns)"
      and v: "hasVert start graph" "hasVert end graph"
      and l: "fsp_loop graph end (path0 @ [start]) conns None = Inr (Some P)"
      by (auto simp: find_shortest_path.simps split: if_splits sum.splits option.splits)
    have "\<forall>n\<in>set conns. edge graph (last (path0 @ [start])) n"
      using c by (simp add: edge_def)
    with 1(1)[OF refl False _ c refl l] v
    obtain R where R: "P = (path0 @ [start]) @ R" "R \<noteq> []" "edge graph start (hd R)" "last R = end"
      "successively (edge graph) R" "distinct R" "set R \<inter> set (path0 @ [start]) = {}"
      by auto
    have "successively (edge graph) (start # R)"
      using R by (cases R) auto
    with R show ?thesis
      by (intro exI[of _ "start # R"]) (auto simp: walk_def)
  qed
next
  case (2 graph "end" path shortest)
  then show ?case by auto
next
  case (3 graph "end" path node nodes shortest)
  note prems = "3.prems"
  show ?case
  proof (cases "node \<in> set path")
    case True
    with prems have "fsp_loop graph end path nodes shortest = Inr (Some P)" by simp
    from "3.hyps"(3)[OF _ this prems(2)] True prems(3,4) show ?thesis by auto
  next
    case False
    with prems(1) obtain newpath where np: "find_shortest_path graph node end path = Inr newpath"
      and l: "fsp_loop graph end path nodes (keep_shorter newpath shortest) = Inr (Some P)"
      by (auto split: sum.splits)
    have ks: "\<exists>R. S = path @ R \<and> R \<noteq> [] \<and> edge graph (last path) (hd R) \<and> last R = end
          \<and> successively (edge graph) R \<and> distinct R \<and> set R \<inter> set path = {}"
      if "keep_shorter newpath shortest = Some S" for S
    proof -
      from keep_shorter_cases[of newpath shortest] that
      consider "newpath = Some S" | "shortest = Some S" by auto
      then show ?thesis
      proof cases
        case 1
        from "3.hyps"(1)[OF False] np 1
        obtain R where R: "S = path @ R" "walk graph node end R" "distinct R" "set (tl R) \<inter> set path = {}"
          by auto
        from R(2) have "R \<noteq> []" "hd R = node" by (auto simp: walk_def)
        then have "set R = insert node (set (tl R))" by (cases R) auto
        with R False prems(3) show ?thesis
          by (intro exI[of _ R]) (auto simp: walk_def)
      next
        case 2
        with prems(4) show ?thesis by blast
      qed
    qed
    from prems(3) have "\<forall>a\<in>set nodes. edge graph (last path) a" by simp
    from "3.hyps"(2)[OF False np l prems(2) this] ks show ?thesis by blast
  qed
qed

lemma graph_inv_getConns:
  assumes "graph_inv g" "hasVert v g"
  shows "\<exists>c. getConns v g = Inr (Some c) \<and> set c \<subseteq> set (vertexList g) \<and> distinct c"
  using assms
  by (auto simp: graph_inv_def getConns_def hasVert_def list_all_iff split: option.splits)

lemma edge_hasVert:
  assumes "graph_inv g" "edge g u v"
  shows "hasVert u g \<and> hasVert v g"
proof -
  from assms(2) obtain c where c: "getConns u g = Inr (Some c)" "v \<in> set c"
    by (auto simp: edge_def split: sum.splits option.splits)
  then have u: "hasVert u g" by (auto simp: getConns_def split: if_splits)
  from graph_inv_getConns[OF assms(1) u] c u show ?thesis
    by (auto simp: hasVert_def)
qed

lemma walk_last_hasVert:
  assumes "graph_inv g" "successively (edge g) R" "2 \<le> length R"
  shows "hasVert (last R) g"
proof -
  obtain ys y z where "R = ys @ [y, z]"
  proof (cases R rule: rev_cases)
    case Nil
    with assms(3) show ?thesis by simp
  next
    case (snoc ys' z)
    with assms(3) that show ?thesis by (cases ys' rule: rev_cases) auto
  qed
  with assms(2) have "edge g y z" by (auto simp: successively_append_iff)
  with edge_hasVert[OF assms(1)] \<open>R = ys @ [y, z]\<close> show ?thesis by auto
qed

lemma fsp_no_error:
  "graph_inv g \<Longrightarrow> \<exists>r. find_shortest_path g s e p0 = Inr r"
  "graph_inv g \<Longrightarrow> \<exists>r. fsp_loop g e path nodes sh = Inr r"
proof (induct g s e p0 and g e path nodes sh rule: find_shortest_path_fsp_loop.induct)
  case (1 graph start "end" path0)
  show ?case
  proof (cases "start = end \<or> \<not> hasVert start graph \<or> \<not> hasVert end graph")
    case True
    then show ?thesis by (auto simp: find_shortest_path.simps Let_def)
  next
    case False
    then obtain c where c: "getConns start graph = Inr (Some c)"
      using graph_inv_getConns[OF 1(2)] by blast
    from 1(1)[OF refl _ _ c refl 1(2)] False
    obtain r where "fsp_loop graph end (path0 @ [start]) c None = Inr r" by auto
    with False c show ?thesis by (simp add: find_shortest_path.simps)
  qed
next
  case (2 graph "end" path shortest)
  then show ?case by simp
next
  case (3 graph "end" path node nodes shortest)
  show ?case
  proof (cases "node \<in> set path")
    case True
    with 3(3)[OF _ 3(4)] show ?thesis by simp
  next
    case False
    from 3(1)[OF False 3(4)] obtain np where np: "find_shortest_path graph node end path = Inr np"
      by blast
    from 3(2)[OF False np 3(4)] False np show ?thesis by simp
  qed
qed

lemma keep_shorter_new:
  assumes "N \<noteq> []"
  shows "\<exists>S'. keep_shorter (Some N) sh = Some S' \<and> S' \<noteq> [] \<and> length S' \<le> length N"
  using assms by (auto simp: keep_shorter_def split: option.splits)

lemma keep_shorter_old:
  assumes "S \<noteq> []"
  shows "\<exists>S'. keep_shorter np (Some S) = Some S' \<and> S' \<noteq> [] \<and> length S' \<le> length S"
  using assms by (auto simp: keep_shorter_def split: option.splits)

lemma fsp_complete:
  "graph_inv g \<Longrightarrow> walk g s e R \<Longrightarrow> distinct R \<Longrightarrow> set (tl R) \<inter> set p0 = {} \<Longrightarrow>
     \<exists>P. find_shortest_path g s e p0 = Inr (Some P) \<and> P \<noteq> [] \<and> length P \<le> length p0 + length R"
  "graph_inv g \<Longrightarrow>
     \<exists>r. fsp_loop g e path nodes sh = Inr r \<and>
       (\<forall>S. sh = Some S \<longrightarrow> S \<noteq> [] \<longrightarrow> (\<exists>P. r = Some P \<and> P \<noteq> [] \<and> length P \<le> length S)) \<and>
       (\<forall>n R. n \<in> set nodes \<longrightarrow> walk g n e R \<longrightarrow> distinct R \<longrightarrow> set R \<inter> set path = {} \<longrightarrow>
          (\<exists>P. r = Some P \<and> P \<noteq> [] \<and> length P \<le> length path + length R))"
proof (induct g s e p0 and g e path nodes sh arbitrary: R and rule: find_shortest_path_fsp_loop.induct)
  case (1 graph start "end" path0)
  note inv = "1.prems"(1) and w = "1.prems"(2) and d = "1.prems"(3) and dj = "1.prems"(4)
  from w obtain R' where R: "R = start # R'" by (cases R) (auto simp: walk_def)
  show ?case
  proof (cases "start = end")
    case True
    with R show ?thesis by (simp add: find_shortest_path.simps)
  next
    case False
    with w R have R'ne: "R' \<noteq> []" by (auto simp: walk_def)
    with w R have e1: "edge graph start (hd R')" and w': "walk graph (hd R') end R'"
      by (cases R'; auto simp: walk_def)+
    from edge_hasVert[OF inv e1] have hs: "hasVert start graph" by simp
    from R R'ne have "2 \<le> length R" by (cases R') auto
    with walk_last_hasVert[OF inv, of R] w have he: "hasVert end graph" by (auto simp: walk_def)
    from graph_inv_getConns[OF inv hs] obtain c where c: "getConns start graph = Inr (Some c)" by blast
    with e1 have inc: "hd R' \<in> set c" by (simp add: edge_def)
    from hs he have "\<not> (\<not> hasVert start graph \<or> \<not> hasVert end graph)" by simp
    from "1.hyps"[OF refl False this c refl inv]
    obtain r where r: "fsp_loop graph end (path0 @ [start]) c None = Inr r"
      and rb: "\<forall>n Q. n \<in> set c \<longrightarrow> walk graph n end Q \<longrightarrow> distinct Q \<longrightarrow> set Q \<inter> set (path0 @ [start]) = {} \<longrightarrow>
            (\<exists>P. r = Some P \<and> P \<noteq> [] \<and> length P \<le> length (path0 @ [start]) + length Q)"
      by (elim exE conjE) (rule that)
    have "set R' \<inter> set (path0 @ [start]) = {}" using d dj R by auto
    from rb[rule_format, OF inc w' _ this] d R obtain P where "r = Some P" "P \<noteq> []" "length P \<le> length (path0 @ [start]) + length R'"
      by auto
    with r c hs he False R show ?thesis by (simp add: find_shortest_path.simps)
  qed
next
  case (2 graph "end" path shortest)
  then show ?case by simp
next
  case (3 graph "end" path node nodes shortest)
  note inv = "3.prems"(1)
  show ?case
  proof (cases "node \<in> set path")
    case True
    from True have nn: "\<not> node \<notin> set path" by simp
    from "3.hyps"(3)[OF nn inv]
    obtain r where r: "fsp_loop graph end path nodes shortest = Inr r"
      and ra': "\<forall>S. shortest = Some S \<longrightarrow> S \<noteq> [] \<longrightarrow> (\<exists>P. r = Some P \<and> P \<noteq> [] \<and> length P \<le> length S)"
      and rb': "\<forall>n Q. n \<in> set nodes \<longrightarrow> walk graph n end Q \<longrightarrow> distinct Q \<longrightarrow> set Q \<inter> set path = {} \<longrightarrow>
            (\<exists>P. r = Some P \<and> P \<noteq> [] \<and> length P \<le> length path + length Q)"
      by (elim exE conjE) (rule that)
    note ra = ra'[rule_format] and rb = rb'[rule_format]
    have "\<exists>P. r = Some P \<and> P \<noteq> [] \<and> length P \<le> length path + length Q"
      if "n \<in> set (node # nodes)" "walk graph n end Q" "distinct Q" "set Q \<inter> set path = {}" for n Q
    proof (cases "n = node")
      case True
      with that(2) have "node \<in> set Q" by (cases Q) (auto simp: walk_def)
      with \<open>node \<in> set path\<close> that(4) show ?thesis by auto
    next
      case False
      with that rb show ?thesis by auto
    qed
    with r ra True show ?thesis by auto
  next
    case False
    from fsp_no_error(1)[OF inv] obtain np where np: "find_shortest_path graph node end path = Inr np"
      by blast
    from "3.hyps"(2)[OF False np inv]
    obtain r where r: "fsp_loop graph end path nodes (keep_shorter np shortest) = Inr r"
      and ra': "\<forall>S. keep_shorter np shortest = Some S \<longrightarrow> S \<noteq> [] \<longrightarrow> (\<exists>P. r = Some P \<and> P \<noteq> [] \<and> length P \<le> length S)"
      and rb': "\<forall>n Q. n \<in> set nodes \<longrightarrow> walk graph n end Q \<longrightarrow> distinct Q \<longrightarrow> set Q \<inter> set path = {} \<longrightarrow>
            (\<exists>P. r = Some P \<and> P \<noteq> [] \<and> length P \<le> length path + length Q)"
      by (elim exE conjE) (rule that)
    note ra = ra'[rule_format] and rb = rb'[rule_format]
    have A: "\<exists>P. r = Some P \<and> P \<noteq> [] \<and> length P \<le> length S" if "shortest = Some S" "S \<noteq> []" for S
    proof -
      from keep_shorter_old[OF that(2), of np] that(1)
      obtain S' where "keep_shorter np shortest = Some S'" "S' \<noteq> []" "length S' \<le> length S" by auto
      with ra[of S'] show ?thesis by fastforce
    qed
    have B: "\<exists>P. r = Some P \<and> P \<noteq> [] \<and> length P \<le> length path + length Q"
      if "n \<in> set (node # nodes)" "walk graph n end Q" "distinct Q" "set Q \<inter> set path = {}" for n Q
    proof (cases "n = node")
      case True
      from that(2) have "Q \<noteq> []" by (simp add: walk_def)
      then have "set (tl Q) \<subseteq> set Q" by (cases Q) auto
      with that(4) have "set (tl Q) \<inter> set path = {}" by auto
      from "3.hyps"(1)[OF False inv _ that(3) this] that(2) True
      obtain N where N: "find_shortest_path graph node end path = Inr (Some N)" "N \<noteq> []"
        "length N \<le> length path + length Q" by auto
      with np have "np = Some N" by simp
      with keep_shorter_new[OF N(2), of shortest]
      obtain S' where "keep_shorter np shortest = Some S'" "S' \<noteq> []" "length S' \<le> length N" by auto
      with ra[of S'] N(3) show ?thesis by fastforce
    next
      case False
      with that rb show ?thesis by auto
    qed
    from r np False have "fsp_loop graph end path (node # nodes) shortest = Inr r" by simp
    with A B show ?thesis by blast
  qed
qed

lemma walk_shortcut:
  "walk g s e R \<Longrightarrow> \<exists>R'. walk g s e R' \<and> distinct R' \<and> length R' \<le> length R"
proof (induct "length R" arbitrary: R rule: less_induct)
  case less
  show ?case
  proof (cases "distinct R")
    case True
    with less.prems show ?thesis by auto
  next
    case False
    then obtain xs ys zs y where R: "R = xs @ [y] @ ys @ [y] @ zs"
      using not_distinct_decomp by blast
    let ?R' = "xs @ [y] @ zs"
    from less.prems have "successively (edge g) ?R'"
      unfolding R walk_def
      by (cases zs) (auto simp: successively_append_iff successively_Cons)
    moreover from less.prems have "hd ?R' = s" "last ?R' = e"
      unfolding R walk_def by (auto simp: hd_append)
    ultimately have "walk g s e ?R'" by (simp add: walk_def)
    moreover have "length ?R' < length R" by (simp add: R)
    ultimately obtain R'' where "walk g s e R''" "distinct R''" "length R'' \<le> length ?R'"
      using less.hyps[of ?R'] by blast
    with \<open>length ?R' < length R\<close> show ?thesis
      by (intro exI[of _ R'']) auto
  qed
qed


subsection \<open>The binary heap\<close>

lemma up_invD1: "up_inv i xs \<Longrightarrow> 2 \<le> j \<Longrightarrow> j < length xs \<Longrightarrow> j \<noteq> i \<Longrightarrow> xs ! (j div 2) \<le> xs ! j"
  by (simp add: up_inv_def)

lemma up_invD2: "up_inv i xs \<Longrightarrow> 2 \<le> j \<Longrightarrow> j < length xs \<Longrightarrow> j div 2 = i \<Longrightarrow> 2 \<le> i \<Longrightarrow> xs ! (i div 2) \<le> xs ! j"
  by (simp add: up_inv_def)

lemma up_inv_root:
  assumes "i div 2 = 0" "up_inv i xs"
  shows "tuple_order xs"
proof -
  from assms(1) have "i < 2" by presburger
  then show ?thesis using assms(2) by (auto simp: tuple_order_def intro: up_invD1)
qed

lemma tuple_order_up_inv:
  assumes "tuple_order xs"
  shows "up_inv (length xs) (xs @ [k])"
  unfolding up_inv_def
proof (intro conjI allI impI)
  fix j assume j: "2 \<le> j \<and> j < length (xs @ [k]) \<and> j \<noteq> length xs"
  then have "j < length xs" "j div 2 < length xs" by auto
  with j assms show "(xs @ [k]) ! (j div 2) \<le> (xs @ [k]) ! j"
    by (simp add: nth_append tuple_order_def)
next
  fix j assume "2 \<le> j \<and> j < length (xs @ [k]) \<and> j div 2 = length xs \<and> 2 \<le> length xs"
  then have False by auto
  then show "(xs @ [k]) ! (length xs div 2) \<le> (xs @ [k]) ! j" ..
qed

lemma up_inv_keep:
  assumes "up_inv i xs" "xs ! (i div 2) \<le> xs ! i" "0 < i div 2" "i < length xs"
  shows "up_inv (i div 2) xs"
  unfolding up_inv_def
proof (intro conjI allI impI)
  fix j assume j: "2 \<le> j \<and> j < length xs \<and> j \<noteq> i div 2"
  show "xs ! (j div 2) \<le> xs ! j"
  proof (cases "j = i")
    case True with assms(2) show ?thesis by simp
  next
    case False with j assms(1) show ?thesis by (simp add: up_invD1)
  qed
next
  fix j assume j: "2 \<le> j \<and> j < length xs \<and> j div 2 = i div 2 \<and> 2 \<le> i div 2"
  then have "i div 2 < length xs" "i div 2 \<noteq> i" using assms(3,4) by auto
  with j assms(1) have p: "xs ! (i div 2 div 2) \<le> xs ! (i div 2)"
    by (intro up_invD1[of i]) auto
  have "xs ! (i div 2) \<le> xs ! j"
  proof (cases "j = i")
    case True with assms(2) show ?thesis by simp
  next
    case False with j up_invD1[OF assms(1), of j] show ?thesis by simp
  qed
  with p show "xs ! (i div 2 div 2) \<le> xs ! j" by simp
qed

lemma up_inv_swap:
  assumes inv: "up_inv i xs" and lt: "xs ! i < xs ! (i div 2)" and p0: "0 < i div 2" and il: "i < length xs"
  shows "up_inv (i div 2) (xs[i div 2 := xs ! i, i := xs ! (i div 2)])"
  unfolding up_inv_def
proof (intro conjI allI impI)
  let ?p = "i div 2"
  let ?ys = "xs[?p := xs ! i, i := xs ! ?p]"
  from p0 il have pi: "?p < i" "?p < length xs" "2 \<le> i" by auto
  have yi: "?ys ! i = xs ! ?p" using il by simp
  have yp: "?ys ! ?p = xs ! i" using pi by simp
  have yo: "\<And>k. k \<noteq> i \<Longrightarrow> k \<noteq> ?p \<Longrightarrow> ?ys ! k = xs ! k" by simp
  {
    fix j assume j: "2 \<le> j \<and> j < length ?ys \<and> j \<noteq> ?p"
    then have jl: "j < length xs" "2 \<le> j" "j \<noteq> ?p" by auto
    show "?ys ! (j div 2) \<le> ?ys ! j"
    proof (cases "j = i")
      case True
      with yi yp lt show ?thesis by simp
    next
      case False
      then have yj: "?ys ! j = xs ! j" using jl yo by simp
      have base: "xs ! (j div 2) \<le> xs ! j" using up_invD1[OF inv jl(2,1) False] .
      consider "j div 2 = ?p" | "j div 2 = i" | "j div 2 \<noteq> ?p" "j div 2 \<noteq> i" by blast
      then show ?thesis
      proof cases
        case 1
        with yp yj base lt show ?thesis by simp
      next
        case 2
        from up_invD2[OF inv jl(2,1) 2 pi(3)] yi yj 2 show ?thesis by simp
      next
        case 3
        with yo[of "j div 2"] yj base show ?thesis by simp
      qed
    qed
  next
    fix j assume j: "2 \<le> j \<and> j < length ?ys \<and> j div 2 = ?p \<and> 2 \<le> ?p"
    then have jl: "j < length xs" "2 \<le> j" "j div 2 = ?p" "2 \<le> ?p" by auto
    have "?p div 2 < ?p" using jl(4) by simp
    then have "?p div 2 \<noteq> i" "?p div 2 \<noteq> ?p" using pi by auto
    then have ypp: "?ys ! (?p div 2) = xs ! (?p div 2)" using yo by simp
    have pp: "xs ! (?p div 2) \<le> xs ! ?p"
      using up_invD1[OF inv jl(4) pi(2)] pi(1) by simp
    have jp: "j \<noteq> ?p" using jl by auto
    show "?ys ! (?p div 2) \<le> ?ys ! j"
    proof (cases "j = i")
      case True
      with yi ypp pp show ?thesis by simp
    next
      case False
      with yo[of j] jp have "?ys ! j = xs ! j" by simp
      moreover have "xs ! ?p \<le> xs ! j" using up_invD1[OF inv jl(2,1) False] jl(3) by simp
      ultimately show ?thesis using ypp pp by simp
    qed
  }
qed

lemma percUp_correct:
  "i < length (heapList h) \<Longrightarrow>
   \<exists>h'. percUp i h = Inr h' \<and> currentSize h' = currentSize h \<and>
        length (heapList h') = length (heapList h) \<and>
        mset (heapList h') = mset (heapList h) \<and>
        heapList h' ! 0 = heapList h ! 0 \<and>
        (up_inv i (heapList h) \<longrightarrow> tuple_order (heapList h'))"
proof (induct i h rule: percUp.induct)
  case (1 i h)
  let ?xs = "heapList h"
  let ?p = "i div 2"
  show ?case
  proof (cases "0 < ?p")
    case False
    then have "percUp i h = Inr h" by (simp add: percUp.simps)
    with False up_inv_root[of i ?xs] show ?thesis by auto
  next
    case True
    define h1 where "h1 = (if ?xs ! i < ?xs ! ?p
              then h\<lparr>heapList := ?xs[?p := ?xs ! i, i := ?xs ! ?p]\<rparr> else h)"
    from True "1.prems" have pl: "?p < length ?xs" "?p < i" "?p \<noteq> 0" "i \<noteq> 0" by auto
    have e: "percUp i h = percUp ?p h1"
      using True "1.prems" by (subst percUp.simps) (simp add: h1_def)
    have l1: "length (heapList h1) = length ?xs" "currentSize h1 = currentSize h"
      by (simp_all add: h1_def)
    have m1: "mset (heapList h1) = mset ?xs"
      using mset_swap[OF "1.prems" pl(1)] by (simp add: h1_def)
    have z1: "heapList h1 ! 0 = ?xs ! 0"
      using pl by (simp add: h1_def)
    have u1: "up_inv ?p (heapList h1)" if "up_inv i ?xs"
    proof (cases "?xs ! i < ?xs ! ?p")
      case True
      with up_inv_swap[OF that True \<open>0 < ?p\<close> "1.prems"] show ?thesis by (simp add: h1_def)
    next
      case False
      then have "?xs ! ?p \<le> ?xs ! i" by simp
      from up_inv_keep[OF that this \<open>0 < ?p\<close> "1.prems"] False show ?thesis by (simp add: h1_def)
    qed
    from pl l1 have "?p < length (heapList h1)" by simp
    from "1.hyps"[OF True "1.prems", folded h1_def, OF this]
    obtain h' where h': "percUp ?p h1 = Inr h'" "currentSize h' = currentSize h1"
      "length (heapList h') = length (heapList h1)" "mset (heapList h') = mset (heapList h1)"
      "heapList h' ! 0 = heapList h1 ! 0" "up_inv ?p (heapList h1) \<longrightarrow> tuple_order (heapList h')"
      by blast
    with e l1 m1 z1 u1 show ?thesis by auto
  qed
qed

lemma insert_heap_correct:
  assumes "heap_wf h"
  shows "\<exists>h'. insert_heap k h = Inr h' \<and> heap_wf h' \<and> currentSize h' = currentSize h + 1 \<and>
        mset (heapList h') = add_mset k (mset (heapList h)) \<and>
        heapList h' ! 0 = heapList h ! 0 \<and>
        (tuple_order (heapList h) \<longrightarrow> tuple_order (heapList h'))"
proof -
  let ?h2 = "h\<lparr>heapList := heapList h @ [k], currentSize := currentSize h + 1\<rparr>"
  from assms have n: "nat (currentSize h + 1) = length (heapList h)" "0 < length (heapList h)"
    by (auto simp: heap_wf_def)
  then have "nat (currentSize h + 1) < length (heapList ?h2)" by simp
  from percUp_correct[OF this] obtain h' where h': "percUp (nat (currentSize h + 1)) ?h2 = Inr h'"
    "currentSize h' = currentSize ?h2" "length (heapList h') = length (heapList ?h2)"
    "mset (heapList h') = mset (heapList ?h2)" "heapList h' ! 0 = heapList ?h2 ! 0"
    "up_inv (nat (currentSize h + 1)) (heapList ?h2) \<longrightarrow> tuple_order (heapList h')"
    by blast
  have "insert_heap k h = Inr h'" using h'(1) by (simp add: insert_heap_def)
  moreover have "heap_wf h'" using h'(2,3) assms by (simp add: heap_wf_def)
  moreover have "heapList h' ! 0 = heapList h ! 0" using h'(5) n by (simp add: nth_append)
  moreover have "tuple_order (heapList h')" if "tuple_order (heapList h)"
    using h'(6) tuple_order_up_inv[OF that, of k] n by simp
  ultimately show ?thesis using h'(2,4) by auto
qed

lemma down_invD1:
  "down_inv k m xs \<Longrightarrow> 2 \<le> j \<Longrightarrow> j < length xs \<Longrightarrow> k \<le> j div 2 \<Longrightarrow> j div 2 \<noteq> m \<Longrightarrow> xs ! (j div 2) \<le> xs ! j"
  by (simp add: down_inv_def)

lemma down_invD2:
  "down_inv k m xs \<Longrightarrow> 2 \<le> j \<Longrightarrow> j < length xs \<Longrightarrow> j div 2 = m \<Longrightarrow> k \<le> m div 2 \<Longrightarrow> xs ! (m div 2) \<le> xs ! j"
  by (simp add: down_inv_def)

lemma tuple_order_sub_order: "tuple_order xs = sub_order 1 xs"
  unfolding tuple_order_def sub_order_def
  by (metis One_nat_def Suc_1 Suc_leI div_greater_zero_iff pos2)

lemma sub_order_down_inv:
  assumes "sub_order (Suc k) xs" "1 \<le> k"
  shows "down_inv k k xs"
  unfolding down_inv_def
proof (intro conjI allI impI)
  fix j assume "2 \<le> j \<and> j < length xs \<and> k \<le> j div 2 \<and> j div 2 \<noteq> k"
  with assms(1) show "xs ! (j div 2) \<le> xs ! j" by (simp add: sub_order_def)
next
  fix j assume "2 \<le> j \<and> j < length xs \<and> j div 2 = k \<and> k \<le> k div 2"
  with assms(2) have False by auto
  then show "xs ! (k div 2) \<le> xs ! j" ..
qed

lemma down_inv_leaf:
  assumes "down_inv k m xs" "length xs \<le> 2 * m"
  shows "sub_order k xs"
  unfolding sub_order_def
proof (intro allI impI)
  fix j assume j: "2 \<le> j \<and> j < length xs \<and> k \<le> j div 2"
  with assms(2) have "j div 2 \<noteq> m" by auto
  with j assms(1) show "xs ! (j div 2) \<le> xs ! j" by (simp add: down_invD1)
qed

text \<open>What \<open>minChild\<close> returns when the node has a child.\<close>

lemma minChild_correct:
  assumes "heap_wf h" "int (i * 2) \<le> currentSize h"
  shows "\<exists>mc. minChild i h = Inr mc \<and> mc div 2 = i \<and> (mc = 2 * i \<or> mc = 2 * i + 1) \<and>
           mc < length (heapList h) \<and>
           (\<forall>j. j < length (heapList h) \<and> j div 2 = i \<longrightarrow> heapList h ! mc \<le> heapList h ! j)"
proof -
  from assms have n: "int (length (heapList h)) = currentSize h + 1" "i * 2 < length (heapList h)"
    by (auto simp: heap_wf_def)
  have ch: "j = 2 * i \<or> j = 2 * i + 1" if "j div 2 = i" for j using that by auto
  show ?thesis
  proof (cases "int (i * 2 + 1) > currentSize h")
    case True
    then have "minChild i h = Inr (i * 2)" by (simp add: minChild_def)
    moreover have "heapList h ! (i * 2) \<le> heapList h ! j" if "j < length (heapList h)" "j div 2 = i" for j
    proof -
      from True n that(1) have "j < 2 * i + 1" by linarith
      with ch[OF that(2)] show ?thesis by (simp add: mult.commute)
    qed
    ultimately show ?thesis using n by (auto simp: mult.commute)
  next
    case False
    with n have l: "i * 2 + 1 < length (heapList h)" by linarith
    show ?thesis
    proof (cases "heapList h ! (i * 2) < heapList h ! (i * 2 + 1)")
      case True
      with False l have "minChild i h = Inr (i * 2)" by (simp add: minChild_def)
      moreover have "heapList h ! (i * 2) \<le> heapList h ! j" if "j div 2 = i" for j
        using ch[OF that] True by (auto simp: mult.commute)
      ultimately show ?thesis using n by (auto simp: mult.commute)
    next
      case F: False
      with False l have "minChild i h = Inr (i * 2 + 1)" by (simp add: minChild_def)
      moreover have "heapList h ! (i * 2 + 1) \<le> heapList h ! j" if "j div 2 = i" for j
        using ch[OF that] F by (auto simp: mult.commute)
      ultimately show ?thesis using l by (auto simp: mult.commute)
    qed
  qed
qed

lemma down_inv_keep:
  assumes inv: "down_inv k m xs" and mc: "mc div 2 = m" "mc < length xs" "1 \<le> m"
    and least: "\<forall>j. j < length xs \<and> j div 2 = m \<longrightarrow> xs ! mc \<le> xs ! j"
    and le: "xs ! m \<le> xs ! mc"
  shows "down_inv k mc xs"
  unfolding down_inv_def
proof (intro conjI allI impI)
  fix j assume j: "2 \<le> j \<and> j < length xs \<and> k \<le> j div 2 \<and> j div 2 \<noteq> mc"
  show "xs ! (j div 2) \<le> xs ! j"
  proof (cases "j div 2 = m")
    case True
    with j least have "xs ! mc \<le> xs ! j" by simp
    with le True show ?thesis by simp
  next
    case False
    with j inv show ?thesis by (simp add: down_invD1)
  qed
next
  fix j assume j: "2 \<le> j \<and> j < length xs \<and> j div 2 = mc \<and> k \<le> mc div 2"
  from mc have "m < mc" by auto
  with j mc have "k \<le> j div 2" "j div 2 \<noteq> m" by auto
  with j inv have "xs ! mc \<le> xs ! j" using down_invD1[of k m xs j] by simp
  with le mc show "xs ! (mc div 2) \<le> xs ! j" by simp
qed

lemma down_inv_swap:
  assumes inv: "down_inv k m xs" and mc: "mc div 2 = m" "mc < length xs" "1 \<le> m"
    and least: "\<forall>j. j < length xs \<and> j div 2 = m \<longrightarrow> xs ! mc \<le> xs ! j"
    and gt: "xs ! mc < xs ! m"
  shows "down_inv k mc (xs[m := xs ! mc, mc := xs ! m])"
  unfolding down_inv_def
proof (intro conjI allI impI)
  let ?ys = "xs[m := xs ! mc, mc := xs ! m]"
  from mc have mm: "m < mc" "m < length xs" "2 \<le> mc" by auto
  have ym: "?ys ! m = xs ! mc" using mm by simp
  have yc: "?ys ! mc = xs ! m" using mc by simp
  have yo: "\<And>i. i \<noteq> m \<Longrightarrow> i \<noteq> mc \<Longrightarrow> ?ys ! i = xs ! i" by simp
  {
    fix j assume j: "2 \<le> j \<and> j < length ?ys \<and> k \<le> j div 2 \<and> j div 2 \<noteq> mc"
    then have jl: "2 \<le> j" "j < length xs" "k \<le> j div 2" "j div 2 \<noteq> mc" by auto
    show "?ys ! (j div 2) \<le> ?ys ! j"
    proof (cases "j div 2 = m")
      case True
      then have jm: "j \<noteq> m" using jl(1) by auto
      show ?thesis
      proof (cases "j = mc")
        case True
        with ym yc gt mc show ?thesis by simp
      next
        case False
        with jm yo have "?ys ! j = xs ! j" by simp
        moreover from least jl True have "xs ! mc \<le> xs ! j" by simp
        ultimately show ?thesis using True ym by simp
      qed
    next
      case False
      with jl have pj: "?ys ! (j div 2) = xs ! (j div 2)" using yo by simp
      have jc: "j \<noteq> mc" using False mc by auto
      show ?thesis
      proof (cases "j = m")
        case True
        with jl have "k \<le> m div 2" by simp
        from down_invD2[OF inv mm(3) mc(2) mc(1) this] True pj ym show ?thesis by simp
      next
        case F: False
        with jc yo have "?ys ! j = xs ! j" by simp
        with pj down_invD1[OF inv jl(1,2,3) False] show ?thesis by simp
      qed
    qed
  next
    fix j assume j: "2 \<le> j \<and> j < length ?ys \<and> j div 2 = mc \<and> k \<le> mc div 2"
    then have jl: "2 \<le> j" "j < length xs" "j div 2 = mc" "k \<le> m" using mc by auto
    then have "mc < j" using mm by auto
    with mm have "j \<noteq> m" "j \<noteq> mc" by auto
    with yo have "?ys ! j = xs ! j" by simp
    moreover have "xs ! mc \<le> xs ! j"
      using down_invD1[OF inv jl(1,2)] jl(3,4) mm(1) by simp
    ultimately show "?ys ! (mc div 2) \<le> ?ys ! j" using mc ym by simp
  }
qed

lemma percDown_correct:
  "heap_wf h \<Longrightarrow> 1 \<le> i \<Longrightarrow>
   \<exists>h'. percDown i h = Some (Inr h') \<and> currentSize h' = currentSize h \<and>
        length (heapList h') = length (heapList h) \<and>
        mset (heapList h') = mset (heapList h) \<and>
        heapList h' ! 0 = heapList h ! 0 \<and>
        (down_inv k i (heapList h) \<longrightarrow> sub_order k (heapList h'))"
proof (induct i h rule: percDown.induct)
  case (1 i h)
  let ?xs = "heapList h"
  note wf = "1.prems"(1) and i1 = "1.prems"(2)
  show ?case
  proof (cases "int (i * 2) \<le> currentSize h")
    case False
    then have "percDown i h = Some (Inr h)" by (simp add: percDown.simps)
    moreover from False wf have "length ?xs \<le> 2 * i" by (auto simp: heap_wf_def)
    ultimately show ?thesis using down_inv_leaf[of k i ?xs] by auto
  next
    case True
    from minChild_correct[OF wf True] obtain mc where mc: "minChild i h = Inr mc" "mc div 2 = i"
      "mc < length ?xs"
      and least: "\<forall>j. j < length ?xs \<and> j div 2 = i \<longrightarrow> ?xs ! mc \<le> ?xs ! j"
      by blast
    from mc i1 have im: "i < mc" "i < length ?xs" "1 \<le> mc" "i \<noteq> 0" "mc \<noteq> 0" by auto
    define h1 where "h1 = (if ?xs ! i > ?xs ! mc
              then h\<lparr>heapList := ?xs[i := ?xs ! mc, mc := ?xs ! i]\<rparr> else h)"
    have e: "percDown i h = percDown mc h1"
      using True mc im by (subst percDown.simps) (simp add: h1_def)
    have l1: "length (heapList h1) = length ?xs" "currentSize h1 = currentSize h"
      by (simp_all add: h1_def)
    then have wf1: "heap_wf h1" using wf by (simp add: heap_wf_def)
    have m1: "mset (heapList h1) = mset ?xs"
      using mset_swap[OF mc(3) im(2)] by (simp add: h1_def)
    have z1: "heapList h1 ! 0 = ?xs ! 0"
      using im by (simp add: h1_def)
    have d1: "down_inv k mc (heapList h1)" if "down_inv k i ?xs"
    proof (cases "?xs ! i > ?xs ! mc")
      case True
      from down_inv_swap[OF that mc(2,3) i1 least True] True show ?thesis by (simp add: h1_def)
    next
      case False
      then have "?xs ! i \<le> ?xs ! mc" by simp
      from down_inv_keep[OF that mc(2,3) i1 least this] False show ?thesis by (simp add: h1_def)
    qed
    have cond: "i < length ?xs \<and> mc < length ?xs" "\<not> mc \<le> i" using im mc by auto
    from "1.hyps"[OF True mc(1) cond, folded h1_def, OF wf1 im(3)]
    obtain h' where h': "percDown mc h1 = Some (Inr h')" "currentSize h' = currentSize h1"
      "length (heapList h') = length (heapList h1)" "mset (heapList h') = mset (heapList h1)"
      "heapList h' ! 0 = heapList h1 ! 0" "down_inv k mc (heapList h1) \<longrightarrow> sub_order k (heapList h')"
      by blast
    with e l1 m1 z1 d1 show ?thesis by auto
  qed
qed

lemma root_least:
  assumes "tuple_order xs"
  shows "1 \<le> j \<Longrightarrow> j < length xs \<Longrightarrow> xs ! 1 \<le> xs ! j"
proof (induct j rule: less_induct)
  case (less j)
  show ?case
  proof (cases "j = 1")
    case True
    then show ?thesis by simp
  next
    case False
    with less.prems have j: "2 \<le> j" "j div 2 < j" "1 \<le> j div 2" "j div 2 < length xs" by auto
    from less.hyps[OF j(2,3,4)] have "xs ! 1 \<le> xs ! (j div 2)" .
    also from assms j(1) less.prems(2) have "xs ! (j div 2) \<le> xs ! j" by (simp add: tuple_order_def)
    finally show ?thesis .
  qed
qed

lemma mset_remove_root:
  assumes "2 \<le> length xs"
  shows "add_mset (xs ! 1) (mset (butlast (xs[1 := last xs]))) = mset xs"
proof -
  from assms obtain x0 x1 rest where xs: "xs = x0 # x1 # rest"
    by (cases xs; cases "tl xs") auto
  show ?thesis
  proof (cases "rest = []")
    case True
    with xs show ?thesis by simp
  next
    case False
    then have "mset rest = add_mset (last rest) (mset (butlast rest))"
      by (metis append_butlast_last_id mset.simps(2) mset_append union_mset_add_mset_right add.right_neutral mset.simps(1))
    with xs False show ?thesis by simp
  qed
qed

lemma tuple_order_remove_root:
  assumes "tuple_order xs" "2 \<le> length xs"
  shows "down_inv 1 1 (butlast (xs[1 := last xs]))"
  unfolding down_inv_def
proof (intro conjI allI impI)
  let ?ys = "butlast (xs[1 := last xs])"
  fix j assume j: "2 \<le> j \<and> j < length ?ys \<and> 1 \<le> j div 2 \<and> j div 2 \<noteq> 1"
  then have jl: "j < length xs - 1" "j div 2 < length xs - 1" "j \<noteq> 1" "j div 2 \<noteq> 1" by auto
  then have "?ys ! j = xs ! j" "?ys ! (j div 2) = xs ! (j div 2)"
    by (simp_all add: nth_butlast)
  moreover from jl have "j < length xs" by simp
  ultimately show "?ys ! (j div 2) \<le> ?ys ! j" using assms(1) j by (simp add: tuple_order_def)
next
  let ?ys = "butlast (xs[1 := last xs])"
  fix j assume "2 \<le> j \<and> j < length ?ys \<and> j div 2 = 1 \<and> (1::nat) \<le> 1 div 2"
  then have False by simp
  then show "?ys ! (1 div 2) \<le> ?ys ! j" ..
qed

lemma delMin_correct:
  assumes wf: "heap_wf h" and pos: "0 < currentSize h"
  shows "\<exists>r h'. delMin h = Some (Inr (r, h')) \<and> r = heapList h ! 1 \<and> heap_wf h' \<and>
           currentSize h' = currentSize h - 1 \<and>
           add_mset r (mset (heapList h')) = mset (heapList h) \<and>
           heapList h' ! 0 = heapList h ! 0 \<and>
           (tuple_order (heapList h) \<longrightarrow> tuple_order (heapList h'))"
proof -
  let ?xs = "heapList h"
  from wf pos have n: "2 \<le> length ?xs" "nat (currentSize h) = length ?xs - 1"
    "int (length ?xs) = currentSize h + 1"
    by (auto simp: heap_wf_def)
  then have g1: "list_get ?xs 1 = Inr (?xs ! 1)" by (simp add: list_get_def)
  from n have "?xs \<noteq> []" by auto
  with n pos have g2: "py_get ?xs (currentSize h) = Inr (last ?xs)"
    by (simp add: py_get_def last_conv_nth)
  define h3 where "h3 = \<lparr>heapList = butlast (?xs[1 := last ?xs]), currentSize = currentSize h - 1\<rparr>"
  have wf3: "heap_wf h3" using n pos by (simp add: h3_def heap_wf_def)
  from percDown_correct[OF wf3, of 1 1]
  obtain h' where h': "percDown 1 h3 = Some (Inr h')" "currentSize h' = currentSize h3"
    "length (heapList h') = length (heapList h3)" "mset (heapList h') = mset (heapList h3)"
    "heapList h' ! 0 = heapList h3 ! 0" "down_inv 1 1 (heapList h3) \<longrightarrow> sub_order 1 (heapList h')"
    by auto
  have "h\<lparr>currentSize := currentSize h - 1, heapList := butlast (?xs[1 := last ?xs])\<rparr> = h3"
    by (simp add: h3_def)
  then have "delMin h = Some (Inr (?xs ! 1, h'))"
    using g1 g2 h'(1) by (simp add: delMin_def Let_def)
  moreover have "heap_wf h'" using wf3 h'(2,3) by (simp add: heap_wf_def)
  moreover have "currentSize h' = currentSize h - 1" using h'(2) by (simp add: h3_def)
  moreover have "add_mset (?xs ! 1) (mset (heapList h')) = mset ?xs"
    using h'(4) mset_remove_root[OF n(1)] by (simp add: h3_def)
  moreover have "heapList h' ! 0 = ?xs ! 0"
    using h'(5) n(1) by (simp add: h3_def nth_butlast)
  moreover have "tuple_order (heapList h')" if "tuple_order ?xs"
    using h'(6) tuple_order_remove_root[OF that n(1)] by (simp add: h3_def tuple_order_sub_order)
  ultimately show ?thesis by blast
qed

lemma inserts_correct:
  "heap_wf h \<Longrightarrow>
   \<exists>h'. inserts es h = Inr h' \<and> heap_wf h' \<and>
        mset (heapList h') = mset es + mset (heapList h) \<and>
        heapList h' ! 0 = heapList h ! 0 \<and>
        (tuple_order (heapList h) \<longrightarrow> tuple_order (heapList h'))"
proof (induction es arbitrary: h)
  case Nil
  then show ?case by simp
next
  case (Cons e es)
  from insert_heap_correct[OF Cons.prems, of e] obtain h1 where h1: "insert_heap e h = Inr h1"
    "heap_wf h1" "mset (heapList h1) = add_mset e (mset (heapList h))"
    "heapList h1 ! 0 = heapList h ! 0" "tuple_order (heapList h) \<longrightarrow> tuple_order (heapList h1)"
    by blast
  from Cons.IH[OF h1(2)] obtain h' where "inserts es h1 = Inr h'" "heap_wf h'"
    "mset (heapList h') = mset es + mset (heapList h1)" "heapList h' ! 0 = heapList h1 ! 0"
    "tuple_order (heapList h1) \<longrightarrow> tuple_order (heapList h')"
    by blast
  with h1 show ?case by auto
qed

lemma mset_tl_nth0: "xs \<noteq> [] \<Longrightarrow> mset xs = add_mset (xs ! 0) (mset (tl xs))"
  by (cases xs) auto

lemma drain_correct:
  "heap_wf h \<Longrightarrow> tuple_order (heapList h) \<Longrightarrow> heapList h ! 0 = (0, ''0'') \<Longrightarrow>
   \<exists>rs. drain h out = Some (Inr (out @ rs)) \<and> sorted (map fst rs) \<and> mset rs = mset (tl (heapList h))"
proof (induct "length (heapList h)" arbitrary: h out rule: less_induct)
  case less
  let ?xs = "heapList h"
  note wf = less.prems(1) and ord = less.prems(2) and z = less.prems(3)
  from wf have ne: "?xs \<noteq> []" by (auto simp: heap_wf_def)
  show ?case
  proof (cases "isEmpty h")
    case True
    then have "drain h out = Some (Inr out)" by (subst drain.simps) simp
    with True show ?thesis by (simp add: isEmpty_def)
  next
    case False
    have "length ?xs \<noteq> 1"
    proof
      assume "length ?xs = 1"
      then obtain x where "?xs = [x]" by (cases ?xs) auto
      with z False show False by (simp add: isEmpty_def)
    qed
    with ne have "2 \<le> length ?xs" by (cases ?xs) (auto simp: Suc_le_eq)
    with wf have pos: "0 < currentSize h" by (simp add: heap_wf_def)
    from delMin_correct[OF wf pos] ord obtain r h' where d: "delMin h = Some (Inr (r, h'))"
      "r = ?xs ! 1" "heap_wf h'" "currentSize h' = currentSize h - 1"
      "add_mset r (mset (heapList h')) = mset ?xs" "heapList h' ! 0 = ?xs ! 0"
      "tuple_order (heapList h')"
      by blast
    from d(3,4) wf have len: "length (heapList h') < length ?xs" by (auto simp: heap_wf_def)
    from d(6) z have z': "heapList h' ! 0 = (0, ''0'')" by simp
    from less.hyps[OF len d(3) d(7) z', of "out @ [r]"] obtain rs where rs:
      "drain h' (out @ [r]) = Some (Inr ((out @ [r]) @ rs))" "sorted (map fst rs)"
      "mset rs = mset (tl (heapList h'))"
      by blast
    from d(3) have ne': "heapList h' \<noteq> []" by (auto simp: heap_wf_def)
    from d(5) mset_tl_nth0[OF ne] mset_tl_nth0[OF ne'] d(6)
    have mt: "mset (tl ?xs) = add_mset r (mset (tl (heapList h')))" by simp
    have "fst r \<le> fst x" if "x \<in> set rs" for x
    proof -
      from that rs(3) mt have "x \<in> set (tl ?xs)"
        by (metis insert_iff set_mset_add_mset_insert set_mset_mset)
      then obtain j where "j < length (tl ?xs)" "tl ?xs ! j = x" by (auto simp: in_set_conv_nth)
      then have "Suc j < length ?xs" "?xs ! Suc j = x" by (auto simp: nth_tl)
      with root_least[OF ord, of "Suc j"] d(2) have "r \<le> x" by simp
      then show ?thesis by (auto simp: less_eq_prod_def)
    qed
    then have "sorted (map fst (r # rs))" using rs(2) by auto
    moreover have "drain h out = Some (Inr (out @ (r # rs)))"
      using False d(1) rs(1) by (subst drain.simps) simp
    moreover have "mset (r # rs) = mset (tl ?xs)" using mt rs(3) by simp
    ultimately show ?thesis by blast
  qed
qed

lemma BinaryHeap_init_wf: "heap_wf BinaryHeap_init" "tuple_order (heapList BinaryHeap_init)"
  by (simp_all add: heap_wf_def BinaryHeap_init_def tuple_order_def)

lemma tuple_order_heap_order: "tuple_order xs \<Longrightarrow> heap_order xs"
  by (auto simp: tuple_order_def heap_order_def list_all_iff less_eq_prod_def)

lemma buildHeap_loop_correct:
  "heap_wf h \<Longrightarrow> sub_order (Suc n) (heapList h) \<Longrightarrow>
   \<exists>h'. buildHeap_loop n h = Some (Inr h') \<and> heap_wf h' \<and> tuple_order (heapList h') \<and>
        mset (heapList h') = mset (heapList h)"
proof (induction n arbitrary: h)
  case 0
  then show ?case by (simp add: tuple_order_sub_order)
next
  case (Suc n)
  from percDown_correct[OF Suc.prems(1), of "Suc n" "Suc n"]
    sub_order_down_inv[OF Suc.prems(2)]
  obtain h1 where h1: "percDown (Suc n) h = Some (Inr h1)" "currentSize h1 = currentSize h"
    "length (heapList h1) = length (heapList h)" "mset (heapList h1) = mset (heapList h)"
    "sub_order (Suc n) (heapList h1)"
    by auto
  from h1(2,3) Suc.prems(1) have "heap_wf h1" by (simp add: heap_wf_def)
  from Suc.IH[OF this h1(5)] h1(1,4) show ?case by auto
qed

lemma buildHeap_correct:
  "\<exists>h'. buildHeap alist h = Some (Inr h') \<and> heap_wf h' \<and> heap_order (heapList h') \<and>
        mset (heapList h') = add_mset (0, ''0'') (mset alist)"
proof -
  let ?h0 = "h\<lparr>currentSize := int (length alist), heapList := (0, ''0'') # alist\<rparr>"
  have wf: "heap_wf ?h0" by (simp add: heap_wf_def)
  have "sub_order (Suc (length alist div 2)) (heapList ?h0)"
    unfolding sub_order_def
  proof (intro allI impI)
    fix j assume "2 \<le> j \<and> j < length (heapList ?h0) \<and> Suc (length alist div 2) \<le> j div 2"
    then have False by simp linarith
    then show "heapList ?h0 ! (j div 2) \<le> heapList ?h0 ! j" ..
  qed
  from buildHeap_loop_correct[OF wf this] show ?thesis
    by (auto simp: buildHeap_def dest: tuple_order_heap_order)
qed

lemma insert_heap_heap_order:
  assumes "heap_wf h" "tuple_order (heapList h)"
  shows "\<exists>h'. insert_heap k h = Inr h' \<and> heap_wf h' \<and> tuple_order (heapList h') \<and>
           heap_order (heapList h')"
  using insert_heap_correct[OF assms(1), of k] assms(2) by (auto dest: tuple_order_heap_order)

lemma delMin_heap_order:
  assumes "heap_wf h" "0 < currentSize h" "tuple_order (heapList h)"
  shows "\<exists>r h'. delMin h = Some (Inr (r, h')) \<and> heap_wf h' \<and> tuple_order (heapList h') \<and>
           heap_order (heapList h')"
  using delMin_correct[OF assms(1,2)] assms(3) by (auto dest: tuple_order_heap_order)

text \<open>
  \<open>delMin\<close> raises on an empty heap, and returns a tuple on every heap that is not empty
  and still has the sentinel in slot 0.
\<close>

lemma delMin_raises_when_empty:
  assumes "isEmpty h \<or> (heap_wf h \<and> currentSize h = 0)"
  shows "delMin h = Some (Inl IndexError)"
proof -
  from assms have "length (heapList h) = 1" by (auto simp: isEmpty_def heap_wf_def)
  then show ?thesis by (simp add: delMin_def list_get_def)
qed

lemma delMin_returns_with_sentinel:
  assumes wf: "heap_wf h" and z: "heapList h ! 0 = (0, ''0'')" and ne: "\<not> isEmpty h"
  shows "\<exists>r h'. delMin h = Some (Inr (r, h'))"
proof -
  from wf have n: "heapList h \<noteq> []" by (auto simp: heap_wf_def)
  have "length (heapList h) \<noteq> 1"
  proof
    assume "length (heapList h) = 1"
    then obtain x where "heapList h = [x]" by (cases "heapList h") auto
    with z ne show False by (simp add: isEmpty_def)
  qed
  with n have "2 \<le> length (heapList h)" by (cases "heapList h") (auto simp: Suc_le_eq)
  with wf have "0 < currentSize h" by (simp add: heap_wf_def)
  from delMin_correct[OF wf this] show ?thesis by blast
qed

subsection \<open>Cycle detection\<close>

lemma closed_reach:
  assumes cl: "\<forall>u \<in> S. \<forall>w. edge g u w \<longrightarrow> w \<in> S" and r: "(x, y) \<in> (edges g)\<^sup>*" and x: "x \<in> S"
  shows "y \<in> S"
  using r
proof (induct rule: rtrancl_induct)
  case base
  show ?case by (rule x)
next
  case (step y z)
  from step(2) have "edge g y z" by (simp add: edges_def)
  with cl step(3) show ?case by blast
qed

lemma dfs_invD:
  assumes "dfs_inv g A B"
  shows "B \<subseteq> A" "\<forall>u \<in> A - B. \<forall>w. edge g u w \<longrightarrow> w \<in> A - B"
    "\<forall>u \<in> A - B. (u, u) \<notin> (edges g)\<^sup>+"
  using assms unfolding dfs_inv_def by (rule conjunct1, rule conjunct2[THEN conjunct1], rule conjunct2[THEN conjunct2])

lemma dfs_invI:
  assumes "B \<subseteq> A" "\<forall>u \<in> A - B. \<forall>w. edge g u w \<longrightarrow> w \<in> A - B"
    "\<forall>u \<in> A - B. (u, u) \<notin> (edges g)\<^sup>+"
  shows "dfs_inv g A B"
  unfolding dfs_inv_def using assms by (intro conjI)

lemma dfs_inv_push:
  assumes "dfs_inv g A B" "v \<notin> A"
  shows "dfs_inv g (insert v A) (insert v B)"
proof -
  from assms(2) have eq: "insert v A - insert v B = A - B" by blast
  note d = dfs_invD[OF assms(1)]
  show ?thesis
  proof (rule dfs_invI)
    from d(1) show "insert v B \<subseteq> insert v A" by blast
    from d(2) show "\<forall>u \<in> insert v A - insert v B. \<forall>w. edge g u w \<longrightarrow> w \<in> insert v A - insert v B"
      by (simp only: eq)
    from d(3) show "\<forall>u \<in> insert v A - insert v B. (u, u) \<notin> (edges g)\<^sup>+"
      by (simp only: eq)
  qed
qed

lemma dfs_inv_pop:
  assumes inv: "dfs_inv g A (insert v B)" and vA: "v \<in> A" and vB: "v \<notin> B"
    and succ: "\<forall>w. edge g v w \<longrightarrow> w \<in> A - insert v B"
  shows "dfs_inv g A B"
proof -
  let ?S = "A - insert v B"
  note d = dfs_invD[OF inv]
  from vA vB have eq: "A - B = insert v ?S" by blast
  have nv: "(v, v) \<notin> (edges g)\<^sup>+"
  proof
    assume "(v, v) \<in> (edges g)\<^sup>+"
    from tranclD[OF this] obtain w where w: "(v, w) \<in> edges g" "(w, v) \<in> (edges g)\<^sup>*"
      by (elim exE conjE)
    from w(1) have "edge g v w" by (simp add: edges_def)
    with succ have "w \<in> ?S" by (elim allE impE)
    from closed_reach[OF d(2) w(2) this] show False by simp
  qed
  show ?thesis
  proof (rule dfs_invI)
    from d(1) show "B \<subseteq> A" by blast
    show "\<forall>u \<in> A - B. \<forall>w. edge g u w \<longrightarrow> w \<in> A - B"
    proof (intro ballI allI impI)
      fix u w assume u: "u \<in> A - B" and e: "edge g u w"
      show "w \<in> A - B"
      proof (cases "u = v")
        case True
        with succ e have "w \<in> ?S" by simp
        then show ?thesis by blast
      next
        case False
        with u have "u \<in> ?S" by blast
        with d(2) e have "w \<in> ?S" by blast
        then show ?thesis by blast
      qed
    qed
    show "\<forall>u \<in> A - B. (u, u) \<notin> (edges g)\<^sup>+"
    proof
      fix u assume u: "u \<in> A - B"
      show "(u, u) \<notin> (edges g)\<^sup>+"
      proof (cases "u = v")
        case True
        with nv show ?thesis by simp
      next
        case False
        with u have "u \<in> ?S" by blast
        with d(3) show ?thesis by (rule bspec)
      qed
    qed
  qed
qed

lemma graph_inv_edge_iff:
  assumes "graph_inv g" "v \<in> set (vertexList g)"
  shows "\<exists>c. getConns v g = Inr (Some c) \<and> set c \<subseteq> set (vertexList g) \<and> (\<forall>w. edge g v w = (w \<in> set c))"
proof -
  from assms have "hasVert v g" by (simp add: hasVert_def)
  from graph_inv_getConns[OF assms(1) this] show ?thesis by (auto simp: edge_def)
qed

lemma visit_correct:
  "graph_inv g \<Longrightarrow> v \<in> set (vertexList g) \<Longrightarrow> dfs_inv g A B \<Longrightarrow> v \<notin> B \<Longrightarrow>
   (\<forall>p \<in> B. (p, v) \<in> (edges g)\<^sup>+) \<Longrightarrow>
   \<exists>b A' B'. visit v A B g = Inr (b, A', B') \<and> (b \<longrightarrow> has_cycle g) \<and>
      (\<not> b \<longrightarrow> B' = B \<and> A \<subseteq> A' \<and> v \<in> A' \<and> dfs_inv g A' B)"
  "graph_inv g \<Longrightarrow> set ns \<subseteq> set (vertexList g) \<Longrightarrow> dfs_inv g A B \<Longrightarrow> u \<in> B \<Longrightarrow>
   (\<forall>p \<in> B. (p, u) \<in> (edges g)\<^sup>*) \<Longrightarrow> (\<forall>n \<in> set ns. edge g u n) \<Longrightarrow>
   \<exists>b A' B'. visit_loop ns A B g = Inr (b, A', B') \<and> (b \<longrightarrow> has_cycle g) \<and>
      (\<not> b \<longrightarrow> B' = B \<and> A \<subseteq> A' \<and> set ns \<subseteq> A' - B \<and> dfs_inv g A' B)"
proof (induct v A B g and ns A B g arbitrary: and u rule: visit_visit_loop.induct)
  case (1 vertex visited path graph)
  note inv = "1.prems"(1) and vV = "1.prems"(2) and dinv = "1.prems"(3) and vB = "1.prems"(4)
    and chain = "1.prems"(5)
  show ?case
  proof (cases "vertex \<in> visited")
    case True
    then have "visit vertex visited path graph = Inr (False, visited, path)"
      by (simp add: visit.simps)
    with True dinv show ?thesis
      by (intro exI[of _ False] exI[of _ visited] exI[of _ path]) simp
  next
    case False
    from graph_inv_edge_iff[OF inv vV] obtain c where c: "getConns vertex graph = Inr (Some c)"
      "set c \<subseteq> set (vertexList graph)" "\<forall>w. edge graph vertex w = (w \<in> set c)"
      by blast
    have ch: "\<forall>p \<in> insert vertex path. (p, vertex) \<in> (edges graph)\<^sup>*"
      using chain by (auto intro: trancl_into_rtrancl)
    have ed: "\<forall>n \<in> set c. edge graph vertex n" using c(3) by simp
    from "1.hyps"[OF False c(1) refl inv c(2) dfs_inv_push[OF dinv False] _ ch ed]
    obtain b A' B' where r: "visit_loop c (insert vertex visited) (insert vertex path) graph = Inr (b, A', B')"
      "b \<longrightarrow> has_cycle graph"
      "\<not> b \<longrightarrow> B' = insert vertex path \<and> insert vertex visited \<subseteq> A' \<and>
         set c \<subseteq> A' - insert vertex path \<and> dfs_inv graph A' (insert vertex path)"
      by auto
    show ?thesis
    proof (cases b)
      case True
      with r c False have "visit vertex visited path graph = Inr (True, A', B')"
        by (simp add: visit.simps)
      with True r(2) show ?thesis
        by (intro exI[of _ True] exI[of _ A'] exI[of _ B']) simp
    next
      case F: False
      with r have B': "B' = insert vertex path" and sub: "insert vertex visited \<subseteq> A'"
        and cs: "set c \<subseteq> A' - insert vertex path" and di: "dfs_inv graph A' (insert vertex path)"
        by auto
      from cs c(3) have succ: "\<forall>w. edge graph vertex w \<longrightarrow> w \<in> A' - insert vertex path" by auto
      from sub have vA: "vertex \<in> A'" by auto
      have "dfs_inv graph A' path" using dfs_inv_pop[OF di vA vB succ] .
      moreover have "visit vertex visited path graph = Inr (False, A', path)"
        using r(1) c False F B' vB by (simp add: visit.simps)
      ultimately show ?thesis using sub
        by (intro exI[of _ False] exI[of _ A'] exI[of _ path]) simp
    qed
  qed
next
  case (2 visited path graph)
  have "visit_loop [] visited path graph = Inr (False, visited, path)"
    by (simp add: visit_loop.simps)
  with "2.prems"(3) show ?case
    by (intro exI[of _ False] exI[of _ visited] exI[of _ path]) simp
next
  case (3 neighbour rest visited path graph)
  note inv = "3.prems"(1) and sub = "3.prems"(2) and dinv = "3.prems"(3) and uB = "3.prems"(4)
    and chain = "3.prems"(5) and ed = "3.prems"(6)
  from ed have e: "(u, neighbour) \<in> edges graph" by (simp add: edges_def)
  show ?case
  proof (cases "neighbour \<in> path")
    case True
    with chain have "(neighbour, u) \<in> (edges graph)\<^sup>*" by simp
    from this e have "(neighbour, neighbour) \<in> (edges graph)\<^sup>+" by (rule rtrancl_into_trancl1)
    then have "has_cycle graph" by (auto simp: has_cycle_def)
    moreover from True have "visit_loop (neighbour # rest) visited path graph = Inr (True, visited, path)"
      by (simp add: visit_loop.simps)
    ultimately show ?thesis
      by (intro exI[of _ True] exI[of _ visited] exI[of _ path]) simp
  next
    case False
    have ch1: "\<forall>p \<in> path. (p, neighbour) \<in> (edges graph)\<^sup>+"
      using chain e by (auto intro: rtrancl_into_trancl1)
    from sub have nV: "neighbour \<in> set (vertexList graph)" by simp
    from "3.hyps"(1)[OF False inv nV dinv False ch1]
    obtain b A1 B1 where r1: "visit neighbour visited path graph = Inr (b, A1, B1)"
      "b \<longrightarrow> has_cycle graph"
      "\<not> b \<longrightarrow> B1 = path \<and> visited \<subseteq> A1 \<and> neighbour \<in> A1 \<and> dfs_inv graph A1 path"
      by blast
    show ?thesis
    proof (cases b)
      case True
      with r1 False have "visit_loop (neighbour # rest) visited path graph = Inr (True, A1, B1)"
        by (simp add: visit_loop.simps)
      with True r1(2) show ?thesis
        by (intro exI[of _ True] exI[of _ A1] exI[of _ B1]) simp
    next
      case F: False
      with r1 have B1: "B1 = path" and s1: "visited \<subseteq> A1" and n1: "neighbour \<in> A1"
        and d1: "dfs_inv graph A1 path" by auto
      from sub have sr: "set rest \<subseteq> set (vertexList graph)" by simp
      from ed have er: "\<forall>n \<in> set rest. edge graph u n" by simp
      from r1(1) F B1 have rr: "visit neighbour visited path graph = Inr (False, A1, path)" by simp
      from "3.hyps"(2)[OF False rr refl refl refl inv sr d1 uB chain er]
      obtain b2 A2 B2 where r2: "visit_loop rest A1 path graph = Inr (b2, A2, B2)"
        "b2 \<longrightarrow> has_cycle graph"
        "\<not> b2 \<longrightarrow> B2 = path \<and> A1 \<subseteq> A2 \<and> set rest \<subseteq> A2 - path \<and> dfs_inv graph A2 path"
        by blast
      have "visit_loop (neighbour # rest) visited path graph = Inr (b2, A2, B2)"
        using False rr r2(1) by (simp add: visit_loop.simps)
      moreover have "B2 = path \<and> visited \<subseteq> A2 \<and> set (neighbour # rest) \<subseteq> A2 - path \<and> dfs_inv graph A2 path"
        if "\<not> b2"
        using r2(3) that s1 n1 False by auto
      ultimately show ?thesis using r2(2)
        by (intro exI[of _ b2] exI[of _ A2] exI[of _ B2]) simp
    qed
  qed
qed

lemma check_loop_correct:
  "graph_inv g \<Longrightarrow> set vs \<subseteq> set (vertexList g) \<Longrightarrow> dfs_inv g A {} \<Longrightarrow>
   \<exists>b. check_loop vs A {} g = Inr b \<and> (b \<longrightarrow> has_cycle g) \<and>
       (\<not> b \<longrightarrow> (\<exists>A'. A \<union> set vs \<subseteq> A' \<and> dfs_inv g A' {}))"
proof (induction vs arbitrary: A)
  case Nil
  have "check_loop [] A {} g = Inr False" by simp
  moreover from Nil(3) have "\<exists>A'. A \<union> set [] \<subseteq> A' \<and> dfs_inv g A' {}"
    by (intro exI[of _ A]) simp
  ultimately show ?case by (intro exI[of _ False]) simp
next
  case (Cons v vs)
  from Cons.prems(2) have vV: "v \<in> set (vertexList g)" and sub: "set vs \<subseteq> set (vertexList g)"
    by simp_all
  have "v \<notin> {}" "\<forall>p \<in> {}. (p, v) \<in> (edges g)\<^sup>+" by simp_all
  from visit_correct(1)[OF Cons.prems(1) vV Cons.prems(3) this]
  obtain b A1 B1 where r: "visit v A {} g = Inr (b, A1, B1)" "b \<longrightarrow> has_cycle g"
    "\<not> b \<longrightarrow> B1 = {} \<and> A \<subseteq> A1 \<and> v \<in> A1 \<and> dfs_inv g A1 {}"
    by (elim exE conjE)
  show ?case
  proof (cases b)
    case True
    with r(1) have "check_loop (v # vs) A {} g = Inr True" by simp
    with True r(2) show ?thesis by (intro exI[of _ True]) simp
  next
    case False
    with r(3) have B1: "B1 = {}" and s1: "A \<subseteq> A1" and v1: "v \<in> A1" and d1: "dfs_inv g A1 {}"
      by simp_all
    from Cons.IH[OF Cons.prems(1) sub d1]
    obtain b2 where r2: "check_loop vs A1 {} g = Inr b2" "b2 \<longrightarrow> has_cycle g"
      "\<not> b2 \<longrightarrow> (\<exists>A'. A1 \<union> set vs \<subseteq> A' \<and> dfs_inv g A' {})"
      by (elim exE conjE)
    from r(1) False B1 r2(1) have e: "check_loop (v # vs) A {} g = Inr b2" by simp
    have "\<exists>A'. A \<union> set (v # vs) \<subseteq> A' \<and> dfs_inv g A' {}" if "\<not> b2"
    proof -
      from r2(3) that obtain A' where A': "A1 \<union> set vs \<subseteq> A'" "dfs_inv g A' {}" by blast
      from A'(1) s1 v1 have "A \<union> set (v # vs) \<subseteq> A'" by auto
      with A'(2) show ?thesis by (intro exI[of _ A']) simp
    qed
    with e r2(2) show ?thesis by (intro exI[of _ b2]) simp
  qed
qed

lemma dfs_inv_empty: "dfs_inv g {} {}"
  by (rule dfs_invI) simp_all

lemma cycle_vertex_in_graph:
  assumes "graph_inv g" "(x, x) \<in> (edges g)\<^sup>+"
  shows "x \<in> set (vertexList g)"
proof -
  from tranclD[OF assms(2)] obtain w where "(x, w) \<in> edges g" by (elim exE conjE)
  then have "edge g x w" by (simp add: edges_def)
  from edge_hasVert[OF assms(1) this] show ?thesis by (simp add: hasVert_def)
qed

lemma check_cycles_graph_inv:
  assumes "graph_inv g"
  shows "check_cycles g = Inr (has_cycle g)"
proof -
  from check_loop_correct[OF assms subset_refl dfs_inv_empty]
  obtain b where r: "check_loop (vertexList g) {} {} g = Inr b" "b \<longrightarrow> has_cycle g"
    "\<not> b \<longrightarrow> (\<exists>A'. {} \<union> set (vertexList g) \<subseteq> A' \<and> dfs_inv g A' {})"
    by (elim exE conjE)
  have "b = has_cycle g"
  proof (cases b)
    case True
    with r(2) show ?thesis by simp
  next
    case False
    with r(3) obtain A' where A': "set (vertexList g) \<subseteq> A'" "dfs_inv g A' {}" by auto
    have "\<not> has_cycle g"
    proof
      assume "has_cycle g"
      then obtain x where x: "(x, x) \<in> (edges g)\<^sup>+" unfolding has_cycle_def by (elim exE)
      from cycle_vertex_in_graph[OF assms x] A'(1) have "x \<in> A' - {}" by blast
      with dfs_invD(3)[OF A'(2)] have "(x, x) \<notin> (edges g)\<^sup>+" by (rule bspec)
      with x show False by contradiction
    qed
    with False show ?thesis by simp
  qed
  with r(1) show ?thesis by (simp add: check_cycles_def)
qed

subsection \<open>The claims\<close>

text \<open>
  C7: for any graph and any vertex \<open>u\<close>, in the graph or not,
  \<open>find_shortest_path(G, u, u)\<close> returns the one-element path \<open>[u]\<close>.
\<close>

theorem find_shortest_path_same_vertex:
  "find_shortest_path G u u [] = Inr (Some [u])"
  by (simp add: find_shortest_path.simps)

text \<open>
  C10: \<open>x in h\<close> is true exactly when \<open>x\<close> equals the priority or the name of some tuple
  of the backing list, the sentinel included. After \<open>insert((2, 'a'))\<close> on a fresh heap
  \<open>2 in h\<close> is true, and on a fresh heap both \<open>0 in h\<close> and \<open>'0' in h\<close> are true.
\<close>

theorem contains_either_component:
  "(contains item h = (\<exists>p k. (p, k) \<in> set (heapList h) \<and> (item = PNum p \<or> item = PStr k))) \<and>
   (case insert_heap (2 :: int, ''a'') BinaryHeap_init of
      Inl e \<Rightarrow> False | Inr h2 \<Rightarrow> contains (PNum 2) h2) \<and>
   contains (PNum 0) (BinaryHeap_init :: int BinaryHeap) \<and>
   contains (PStr ''0'') (BinaryHeap_init :: int BinaryHeap)"
proof -
  have "contains item h = (\<exists>p k. (p, k) \<in> set (heapList h) \<and> (item = PNum p \<or> item = PStr k))"
    by (cases item) (force simp: contains_def list_ex_iff)+
  moreover have "(case insert_heap (2 :: int, ''a'') BinaryHeap_init of
           Inl e \<Rightarrow> False | Inr h2 \<Rightarrow> contains (PNum 2) h2)"
    by code_simp
  moreover have "contains (PNum 0) (BinaryHeap_init :: int BinaryHeap)"
    by code_simp
  moreover have "contains (PStr ''0'') (BinaryHeap_init :: int BinaryHeap)"
    by code_simp
  ultimately show ?thesis by blast
qed

text \<open>
  C6: the sentinel \<open>(0, '0')\<close> is meant as a structural anchor only, but the key
  searches start at index 0: on a fresh heap \<open>'0' in h\<close> is true, \<open>display('0')\<close>
  returns the sentinel, and \<open>editHeap('0', (5, '0'))\<close> deletes the sentinel, leaving
  the new tuple in slot 0.
\<close>

theorem sentinel_treated_as_entry:
  "contains (PStr ''0'') (BinaryHeap_init :: int BinaryHeap) \<and>
   display ''0'' (BinaryHeap_init :: int BinaryHeap) = Some (0, ''0'') \<and>
   editHeap ''0'' (5 :: int, ''0'') BinaryHeap_init = Inr \<lparr>heapList = [(5, ''0'')], currentSize = 0\<rparr>"
  by code_simp

text \<open>
  C2: \<open>editHeap\<close> does not keep the heap order. The heap built by inserting
  \<open>(1,a), (5,b), (2,c), (6,d), (7,e), (3,f), (4,g)\<close> is in heap order; after
  \<open>editHeap('a', (0, 'a'))\<close> slot 3 holds priority 5 and its child, slot 6, priority 4.
\<close>

theorem editHeap_breaks_heap_order:
  "(case inserts [(1 :: int, ''a''), (5, ''b''), (2, ''c''), (6, ''d''), (7, ''e''), (3, ''f''), (4, ''g'')]
           BinaryHeap_init of
      Inl e \<Rightarrow> False
    | Inr h \<Rightarrow>
        heap_order (heapList h) \<and>
        editHeap ''a'' (0, ''a'') h =
          Inr \<lparr>heapList = [(0, ''0''), (0, ''a''), (2, ''c''), (5, ''b''), (7, ''e''), (3, ''f''),
                            (4, ''g''), (6, ''d'')],
               currentSize = 7\<rparr> \<and>
        \<not> heap_order [(0, ''0''), (0 :: int, ''a''), (2, ''c''), (5, ''b''), (7, ''e''), (3, ''f''),
                        (4, ''g''), (6, ''d'')])"
  by code_simp

text \<open>
  C1: on the graph with the single edge \<open>A \<rightarrow> 0\<close> (the vertex named \<open>'0'\<close>),
  \<open>Dijkstra(G, 'A')\<close> returns no mapping: relaxing the edge calls
  \<open>editHeap('0', (1, '0'))\<close>, which deletes the sentinel, and a later \<open>delMin\<close> raises
  \<open>IndexError\<close>.
\<close>

theorem Dijkstra_vertex_named_zero_raises:
  "(case addConn ''A'' ''0'' Graph_init of
      Inl e \<Rightarrow> None
    | Inr g \<Rightarrow> map_option (map_sum id (\<lambda>d. map d [''A'', ''0''])) (Dijkstra g ''A''))
   = Some (Inl IndexError)"
  by code_simp

text \<open>
  C5: if \<open>find_shortest_path(G, u, v)\<close> returns a path \<open>P\<close>, then \<open>P\<close> starts with
  \<open>u\<close>, ends with \<open>v\<close>, every consecutive pair of \<open>P\<close> is an edge of \<open>G\<close>, and no vertex
  occurs twice in \<open>P\<close>.
\<close>

theorem find_shortest_path_is_simple_path:
  assumes "find_shortest_path g u v [] = Inr (Some P)"
  shows "P \<noteq> [] \<and> hd P = u \<and> last P = v \<and> successively (edge g) P \<and> distinct P"
  using fsp_sound(1)[OF assms] by (auto simp: walk_def)



theorem find_shortest_path_is_simple_path_witness:
  "(case addConns [(''A'', ''B''), (''A'', ''C''), (''B'', ''C''), (''C'', ''D'')] (addVertex ''A'' Graph_init) of
      Inl e \<Rightarrow> False
    | Inr g \<Rightarrow>
        find_shortest_path g ''A'' ''D'' [] = Inr (Some [''A'', ''C'', ''D'']) \<and>
        successively (edge g) [''A'', ''C'', ''D''])"
proof -
  have ev: "(case addConns [(''A'', ''B''), (''A'', ''C''), (''B'', ''C''), (''C'', ''D'')] (addVertex ''A'' Graph_init) of
      Inl e \<Rightarrow> False
    | Inr g \<Rightarrow> find_shortest_path g ''A'' ''D'' [] = Inr (Some [''A'', ''C'', ''D'']))"
    by code_simp
  show ?thesis
  proof (cases "addConns [(''A'', ''B''), (''A'', ''C''), (''B'', ''C''), (''C'', ''D'')] (addVertex ''A'' Graph_init)")
    case (Inl e)
    with ev show ?thesis by simp
  next
    case (Inr g)
    with ev have g: "find_shortest_path g ''A'' ''D'' [] = Inr (Some [''A'', ''C'', ''D''])" by simp
    from find_shortest_path_is_simple_path[OF g] g Inr show ?thesis by simp
  qed
qed


text \<open>
  C3, as the code has it: on a graph built by \<open>addVertex\<close> and \<open>addConn\<close>, whenever a
  walk from \<open>start\<close> to \<open>end\<close> exists, \<open>find_shortest_path\<close> returns one with the fewest
  vertices; it returns \<open>None\<close> when no walk exists, which includes two different endpoints
  of which one is missing; and for \<open>start == end\<close> it returns \<open>[start]\<close> whether or not the
  vertex is in the graph.
\<close>

theorem find_shortest_path_minimal:
  assumes "graph_inv G"
  shows "((\<exists>R. walk G start end R) \<longrightarrow>
            (\<exists>P. find_shortest_path G start end [] = Inr (Some P) \<and> walk G start end P \<and>
                 (\<forall>R. walk G start end R \<longrightarrow> length P \<le> length R))) \<and>
         ((\<nexists>R. walk G start end R) \<longrightarrow> find_shortest_path G start end [] = Inr None) \<and>
         (start \<noteq> end \<and> (\<not> hasVert start G \<or> \<not> hasVert end G) \<longrightarrow>
            find_shortest_path G start end [] = Inr None) \<and>
         (start = end \<longrightarrow> find_shortest_path G start end [] = Inr (Some [start]))"
proof (intro conjI impI)
  assume "\<exists>R. walk G start end R"
  then obtain R0 where "walk G start end R0" by blast
  from walk_shortcut[OF this] obtain R1 where R1: "walk G start end R1" "distinct R1" by blast
  from fsp_complete(1)[OF assms R1, of "[]"] obtain P where P: "find_shortest_path G start end [] = Inr (Some P)"
    by auto
  from fsp_sound(1)[OF P] have wP: "walk G start end P" by auto
  have "length P \<le> length R" if "walk G start end R" for R
  proof -
    from walk_shortcut[OF that] obtain R' where R': "walk G start end R'" "distinct R'" "length R' \<le> length R"
      by blast
    from fsp_complete(1)[OF assms R'(1,2), of "[]"] P R'(3) show ?thesis by auto
  qed
  with P wP show "\<exists>P. find_shortest_path G start end [] = Inr (Some P) \<and> walk G start end P \<and>
                 (\<forall>R. walk G start end R \<longrightarrow> length P \<le> length R)" by blast
next
  assume no: "\<nexists>R. walk G start end R"
  from fsp_no_error(1)[OF assms] obtain r where r: "find_shortest_path G start end [] = Inr r" by blast
  show "find_shortest_path G start end [] = Inr None"
  proof (cases r)
    case None
    with r show ?thesis by simp
  next
    case (Some P)
    with fsp_sound(1)[of G start "end" "[]" P] r no show ?thesis by auto
  qed
next
  assume "start \<noteq> end \<and> (\<not> hasVert start G \<or> \<not> hasVert end G)"
  then show "find_shortest_path G start end [] = Inr None"
    by (auto simp: find_shortest_path.simps)
next
  assume "start = end"
  then show "find_shortest_path G start end [] = Inr (Some [start])"
    by (simp add: find_shortest_path.simps)
qed

theorem find_shortest_path_minimal_witness:
  "(case addConns [(''A'', ''B''), (''A'', ''C''), (''B'', ''C''), (''C'', ''D'')] (addVertex ''A'' Graph_init) of
      Inl e \<Rightarrow> False
    | Inr g \<Rightarrow>
        graph_inv g \<and> walk g ''A'' ''D'' [''A'', ''B'', ''C'', ''D''] \<and>
        find_shortest_path g ''A'' ''D'' [] = Inr (Some [''A'', ''C'', ''D'']) \<and>
        (\<exists>P. find_shortest_path g ''A'' ''D'' [] = Inr (Some P) \<and> walk g ''A'' ''D'' P \<and> length P \<le> 4) \<and>
        find_shortest_path g ''A'' ''K'' [] = Inr None)"
proof -
  have ev: "(case addConns [(''A'', ''B''), (''A'', ''C''), (''B'', ''C''), (''C'', ''D'')] (addVertex ''A'' Graph_init) of
      Inl e \<Rightarrow> False
    | Inr g \<Rightarrow>
        graph_inv g \<and> walk g ''A'' ''D'' [''A'', ''B'', ''C'', ''D''] \<and>
        find_shortest_path g ''A'' ''D'' [] = Inr (Some [''A'', ''C'', ''D'']) \<and> \<not> hasVert ''K'' g)"
    by code_simp
  show ?thesis
  proof (cases "addConns [(''A'', ''B''), (''A'', ''C''), (''B'', ''C''), (''C'', ''D'')] (addVertex ''A'' Graph_init)")
    case (Inl e)
    with ev show ?thesis by simp
  next
    case (Inr g)
    with ev have g: "graph_inv g" "walk g ''A'' ''D'' [''A'', ''B'', ''C'', ''D'']"
      "find_shortest_path g ''A'' ''D'' [] = Inr (Some [''A'', ''C'', ''D''])" "\<not> hasVert ''K'' g"
      by simp_all
    from find_shortest_path_minimal[OF g(1), of "''A''" "''D''"] g(2)
    obtain P where "find_shortest_path g ''A'' ''D'' [] = Inr (Some P)" "walk g ''A'' ''D'' P"
      "length P \<le> length [''A'', ''B'', ''C'', ''D'']" by blast
    moreover from find_shortest_path_minimal[OF g(1), of "''A''" "''K''"] g(4)
    have "find_shortest_path g ''A'' ''K'' [] = Inr None" by simp
    ultimately show ?thesis using Inr g by auto
  qed
qed

text \<open>
  The claim as stated fails for \<open>start == end\<close> with the vertex absent: on the empty
  graph \<open>find_shortest_path(G, 'A', 'A')\<close> is \<open>['A']\<close>, not \<open>None\<close>.
\<close>

theorem find_shortest_path_absent_vertex_counterexample:
  "\<not> (\<not> hasVert ''A'' (Graph_init :: string Graph) \<longrightarrow>
        find_shortest_path (Graph_init :: string Graph) ''A'' ''A'' [] = Inr None)"
  by (simp add: find_shortest_path.simps hasVert_def Graph_init_def)

text \<open>
  C8: for every sequence of \<open>insert\<close> calls on a fresh heap followed by \<open>delMin\<close> until
  \<open>isEmpty\<close>, every call returns, the heap becomes empty, and the priorities of the
  returned tuples are non-decreasing; the returned tuples are the inserted ones.
\<close>

theorem delMin_sequence_sorted:
  "\<exists>h rs. inserts es BinaryHeap_init = Inr h \<and> drain h [] = Some (Inr rs) \<and>
          sorted (map fst rs) \<and> mset rs = mset es"
proof -
  from inserts_correct[OF BinaryHeap_init_wf(1), of es] BinaryHeap_init_wf(2)
  obtain h where h: "inserts es BinaryHeap_init = Inr h" "heap_wf h"
    "mset (heapList h) = mset es + mset (heapList (BinaryHeap_init :: 'a BinaryHeap))"
    "heapList h ! 0 = heapList (BinaryHeap_init :: 'a BinaryHeap) ! 0" "tuple_order (heapList h)"
    by blast
  from h(4) have z: "heapList h ! 0 = (0, ''0'')" by (simp add: BinaryHeap_init_def)
  from drain_correct[OF h(2,5) z, of "[]"] obtain rs where rs: "drain h [] = Some (Inr rs)"
    "sorted (map fst rs)" "mset rs = mset (tl (heapList h))"
    by auto
  from h(2) have "heapList h \<noteq> []" by (auto simp: heap_wf_def)
  from mset_tl_nth0[OF this] h(3) z have "mset (tl (heapList h)) = mset es"
    by (simp add: BinaryHeap_init_def)
  with h(1) rs show ?thesis by auto
qed

text \<open>
  C9: \<open>delMin\<close> on an empty heap raises \<open>IndexError\<close>, but the error is not confined
  to empty heaps. After \<open>insert((1, 'a'))\<close>, \<open>editHeap('0', (5, '0'))\<close> and one
  \<open>delMin\<close> the backing list is \<open>[(1, 'a')]\<close>: \<open>isEmpty\<close> is false, the inserted tuple
  is still stored, and \<open>delMin\<close> raises \<open>IndexError\<close>.
\<close>

theorem delMin_raises_on_nonempty_heap:
  "(case insert_heap (1 :: int, ''a'') BinaryHeap_init of
      Inl e \<Rightarrow> False
    | Inr h1 \<Rightarrow>
        (case editHeap ''0'' (5, ''0'') h1 of
           Inl e \<Rightarrow> False
         | Inr h2 \<Rightarrow>
             h2 = \<lparr>heapList = [(1, ''a''), (5, ''0'')], currentSize = 1\<rparr> \<and>
             delMin h2 = Some (Inr ((5, ''0''), \<lparr>heapList = [(1, ''a'')], currentSize = 0\<rparr>)))) \<and>
   heap_wf \<lparr>heapList = [(1 :: int, ''a'')], currentSize = 0\<rparr> \<and>
   \<not> isEmpty \<lparr>heapList = [(1 :: int, ''a'')], currentSize = 0\<rparr> \<and>
   delMin \<lparr>heapList = [(1 :: int, ''a'')], currentSize = 0\<rparr> = Some (Inl IndexError) \<and>
   delMin (BinaryHeap_init :: int BinaryHeap) = Some (Inl IndexError)"
  by code_simp

text \<open>
  C4: on a graph built by \<open>addVertex\<close> and \<open>addConn\<close>, \<open>check_cycles\<close> returns true
  if and only if the graph contains a directed cycle; it returns true for the graph with
  the edges \<open>A \<rightarrow> B, B \<rightarrow> A\<close> and false for the graph with the edges \<open>A \<rightarrow> B, A \<rightarrow> C\<close>.
\<close>

theorem check_cycles_correct:
  "(graph_inv G \<longrightarrow> check_cycles G = Inr (has_cycle G)) \<and>
   (case addConns [(''A'', ''B''), (''B'', ''A'')] Graph_init of
      Inl e \<Rightarrow> False | Inr g \<Rightarrow> check_cycles g = Inr True) \<and>
   (case addConns [(''A'', ''B''), (''A'', ''C'')] Graph_init of
      Inl e \<Rightarrow> False | Inr g \<Rightarrow> check_cycles g = Inr False)"
proof (intro conjI impI)
  assume "graph_inv G"
  then show "check_cycles G = Inr (has_cycle G)" by (rule check_cycles_graph_inv)
next
  show "(case addConns [(''A'', ''B''), (''B'', ''A'')] Graph_init of
      Inl e \<Rightarrow> False | Inr g \<Rightarrow> check_cycles g = Inr True)"
    by code_simp
next
  show "(case addConns [(''A'', ''B''), (''A'', ''C'')] Graph_init of
      Inl e \<Rightarrow> False | Inr g \<Rightarrow> check_cycles g = Inr False)"
    by code_simp
qed

theorem check_cycles_correct_witness:
  "(case addConns [(''A'', ''B''), (''B'', ''A'')] Graph_init of
      Inl e \<Rightarrow> False
    | Inr g \<Rightarrow> graph_inv g \<and> check_cycles g = Inr True \<and> has_cycle g) \<and>
   (case addConns [(''A'', ''B''), (''A'', ''C'')] Graph_init of
      Inl e \<Rightarrow> False
    | Inr g \<Rightarrow> graph_inv g \<and> check_cycles g = Inr False \<and> \<not> has_cycle g)"
proof -
  have a: "(case addConns [(''A'', ''B''), (''B'', ''A'')] Graph_init of
      Inl e \<Rightarrow> False | Inr g \<Rightarrow> graph_inv g \<and> check_cycles g = Inr True)"
    by code_simp
  have b: "(case addConns [(''A'', ''B''), (''A'', ''C'')] Graph_init of
      Inl e \<Rightarrow> False | Inr g \<Rightarrow> graph_inv g \<and> check_cycles g = Inr False)"
    by code_simp
  have "(case addConns [(''A'', ''B''), (''B'', ''A'')] Graph_init of
      Inl e \<Rightarrow> False
    | Inr g \<Rightarrow> graph_inv g \<and> check_cycles g = Inr True \<and> has_cycle g)"
  proof (cases "addConns [(''A'', ''B''), (''B'', ''A'')] Graph_init")
    case (Inl e)
    with a show ?thesis by simp
  next
    case (Inr g)
    with a have g: "graph_inv g" "check_cycles g = Inr True" by simp_all
    from check_cycles_correct[of g] g have "has_cycle g" by simp
    with g Inr show ?thesis by simp
  qed
  moreover have "(case addConns [(''A'', ''B''), (''A'', ''C'')] Graph_init of
      Inl e \<Rightarrow> False
    | Inr g \<Rightarrow> graph_inv g \<and> check_cycles g = Inr False \<and> \<not> has_cycle g)"
  proof (cases "addConns [(''A'', ''B''), (''A'', ''C'')] Graph_init")
    case (Inl e)
    with b show ?thesis by simp
  next
    case (Inr g)
    with b have g: "graph_inv g" "check_cycles g = Inr False" by simp_all
    from check_cycles_correct[of g] g have "\<not> has_cycle g" by simp
    with g Inr show ?thesis by simp
  qed
  ultimately show ?thesis by (rule conjI)
qed

end
